theory Spec2Isabelle
  imports Complex_Main
begin

section \<open>Data model\<close>

text \<open>
  The rows of the three tables the two source files read and write. Column declarations
  live in \<^verbatim>\<open>models.py\<close>; the types below are the ones the code in \<^verbatim>\<open>main.py\<close> and
  \<^verbatim>\<open>erpnext_sync.py\<close> stores into the columns. Nullable columns are options, quantities
  are Python integers (the seed rows use 100 and 0), points in time and the tick duration
  are rational numbers of seconds. Statuses are the strings the code compares and writes.
\<close>

type_synonym time = rat

record machine =
  m_id :: int
  m_location :: "string option"
  m_name :: string
  m_status :: string
  m_is_locked :: bool
  m_work_order :: "string option"
  m_erpnext_work_order_id :: "string option"
  m_pipe_size :: "string option"
  m_target_qty :: int
  m_produced_qty :: int
  m_seconds_per_meter :: "rat option"
  m_last_tick_time :: "time option"

record erpnext_metadata =
  meta_machine_id :: int
  meta_work_order :: "string option"
  meta_erp_status :: string
  meta_last_synced :: time

record production_log =
  log_machine_id :: int
  log_work_order :: "string option"
  log_pipe_size :: "string option"
  log_produced_qty :: int
  log_timestamp :: time

record db =
  machines :: "machine list"
  metadata :: "erpnext_metadata list"
  logs :: "production_log list"

text \<open>
  A work order as \<^verbatim>\<open>get_work_orders\<close> returns it: a dictionary. A field is \<open>None\<close> when
  the key is absent (or null, for the fields read with \<^verbatim>\<open>.get\<close>).
\<close>

record work_order =
  wo_name :: "string option"
  wo_status :: "string option"
  wo_custom_machine_id :: "string option"
  wo_custom_location :: "string option"
  wo_custom_pipe_size :: "string option"
  wo_qty :: "int option"
  wo_produced_qty :: "int option"

text \<open>Python truthiness of a nullable string and of a nullable number.\<close>

definition truthy_str :: "string option \<Rightarrow> bool" where
  "truthy_str s = (case s of None \<Rightarrow> False | Some v \<Rightarrow> v \<noteq> [])"

definition truthy_num :: "rat option \<Rightarrow> bool" where
  "truthy_num x = (case x of None \<Rightarrow> False | Some v \<Rightarrow> v \<noteq> 0)"

text \<open>\<^verbatim>\<open>query.filter(p).first()\<close> followed by a mutation of the row found, if any.\<close>

fun update_first :: "('a \<Rightarrow> bool) \<Rightarrow> ('a \<Rightarrow> 'a) \<Rightarrow> 'a list \<Rightarrow> 'a list" where
  "update_first p f [] = []"
| "update_first p f (x # xs) = (if p x then f x # xs else x # update_first p f xs)"

text \<open>The position of the row \<^verbatim>\<open>query.filter(p).first()\<close> returns.\<close>

fun first_index :: "('a \<Rightarrow> bool) \<Rightarrow> 'a list \<Rightarrow> nat option" where
  "first_index p [] = None"
| "first_index p (x # xs) =
     (if p x then Some 0 else map_option Suc (first_index p xs))"

section \<open>Machine controls (main.py)\<close>

text \<open>
  \<^verbatim>\<open>update_machine_status\<close>: the row mutation. The requests to the ERP system are
  best effort (every exception is caught inside \<^verbatim>\<open>update_work_order_status\<close>) and the
  broadcast reads the store only, so neither changes a row.
\<close>

definition update_machine_status :: "time \<Rightarrow> machine \<Rightarrow> string \<Rightarrow> machine" where
  "update_machine_status now m new_status =
     (let m1 = m\<lparr>m_status := new_status\<rparr>
      in if new_status = ''running''
         then m1\<lparr>m_is_locked := True, m_last_tick_time := Some now\<rparr>
         else if new_status = ''completed''
         then m1\<lparr>m_is_locked := False\<rparr>
         else m1)"

definition get_machine :: "db \<Rightarrow> string \<Rightarrow> int \<Rightarrow> nat option" where
  "get_machine d location machine_id =
     first_index (\<lambda>m. m_id m = machine_id \<and> m_location m = Some location) (machines d)"

text \<open>The four request handlers; the boolean is the \<^verbatim>\<open>ok\<close> field of the reply.\<close>

definition start_machine :: "time \<Rightarrow> string \<Rightarrow> int \<Rightarrow> db \<Rightarrow> db \<times> bool" where
  "start_machine now location machine_id d =
     (case get_machine d location machine_id of
        None \<Rightarrow> (d, False)
      | Some i \<Rightarrow>
          if \<not> truthy_str (m_work_order (machines d ! i)) then (d, False)
          else (d\<lparr>machines := (machines d)[i := update_machine_status now (machines d ! i) ''running'']\<rparr>, True))"

definition pause_machine :: "string \<Rightarrow> int \<Rightarrow> db \<Rightarrow> db \<times> bool" where
  "pause_machine location machine_id d =
     (case get_machine d location machine_id of
        None \<Rightarrow> (d, False)
      | Some i \<Rightarrow> (d\<lparr>machines := (machines d)[i := (machines d ! i)\<lparr>m_status := ''paused''\<rparr>]\<rparr>, True))"

definition stop_machine :: "time \<Rightarrow> string \<Rightarrow> int \<Rightarrow> db \<Rightarrow> db \<times> bool" where
  "stop_machine now location machine_id d =
     (case get_machine d location machine_id of
        None \<Rightarrow> (d, False)
      | Some i \<Rightarrow>
          (d\<lparr>machines := (machines d)[i := update_machine_status now (machines d ! i) ''stopped'']\<rparr>, True))"

definition rename_machine :: "string \<Rightarrow> int \<Rightarrow> string \<Rightarrow> db \<Rightarrow> db \<times> bool" where
  "rename_machine location machine_id new_name d =
     (case get_machine d location machine_id of
        None \<Rightarrow> (d, False)
      | Some i \<Rightarrow> (d\<lparr>machines := (machines d)[i := (machines d ! i)\<lparr>m_name := new_name\<rparr>]\<rparr>, True))"

section \<open>Automatic meter counter (main.py)\<close>

text \<open>
  One pass of the loop body of \<^verbatim>\<open>automatic_meter_counter\<close> over one running machine:
  the machine row, the metadata table, the log table and the \<^verbatim>\<open>updated\<close> flag.
\<close>

definition set_erp_status ::
  "string option \<Rightarrow> string \<Rightarrow> erpnext_metadata list \<Rightarrow> erpnext_metadata list" where
  "set_erp_status w st metas =
     update_first (\<lambda>x. meta_work_order x = w) (\<lambda>x. x\<lparr>meta_erp_status := st\<rparr>) metas"

definition meter_step ::
  "time \<Rightarrow> machine \<Rightarrow> erpnext_metadata list \<Rightarrow> production_log list \<Rightarrow> bool
     \<Rightarrow> machine \<times> erpnext_metadata list \<times> production_log list \<times> bool" where
  "meter_step now m metas lg updated =
     (if \<not> truthy_num (m_seconds_per_meter m) \<or> \<not> truthy_str (m_work_order m)
      then (m, metas, lg, updated)
      else case m_last_tick_time m of
        None \<Rightarrow> (m\<lparr>m_last_tick_time := Some now\<rparr>, metas, lg, updated)
      | Some t \<Rightarrow>
          let diff = now - t
          in if the (m_seconds_per_meter m) \<le> diff \<and> m_produced_qty m < m_target_qty m
             then
               let m1 = m\<lparr>m_produced_qty := m_produced_qty m + 1, m_last_tick_time := Some now\<rparr>;
                   lg1 = lg @ [\<lparr>log_machine_id = m_id m1, log_work_order = m_work_order m1,
                                log_pipe_size = m_pipe_size m1, log_produced_qty = 1,
                                log_timestamp = now\<rparr>];
                   metas1 = update_first (\<lambda>x. meta_work_order x = m_work_order m1)
                              (\<lambda>x. x\<lparr>meta_erp_status := ''In Progress'', meta_last_synced := now\<rparr>)
                              metas
               in if m_target_qty m1 \<le> m_produced_qty m1
                  then (update_machine_status now (m1\<lparr>m_produced_qty := m_target_qty m1\<rparr>) ''completed'',
                        set_erp_status (m_work_order m1) ''Completed'' metas1, lg1, True)
                  else (m1, metas1, lg1, True)
             else (m, metas, lg, updated))"

text \<open>
  The \<^verbatim>\<open>for m in machines\<close> loop. The query keeps the rows whose status is
  \<^verbatim>\<open>running\<close>; every other row is left as it is.
\<close>

fun meter_loop ::
  "time \<Rightarrow> machine list \<Rightarrow> erpnext_metadata list \<Rightarrow> production_log list \<Rightarrow> bool
     \<Rightarrow> machine list \<times> erpnext_metadata list \<times> production_log list \<times> bool" where
  "meter_loop now [] metas lg updated = ([], metas, lg, updated)"
| "meter_loop now (m # ms) metas lg updated =
     (if m_status m = ''running''
      then (case meter_step now m metas lg updated of
              (m', metas', lg', updated') \<Rightarrow>
                (case meter_loop now ms metas' lg' updated' of
                   (ms', rest) \<Rightarrow> (m' # ms', rest)))
      else (case meter_loop now ms metas lg updated of
              (ms', rest) \<Rightarrow> (m # ms', rest)))"

text \<open>
  One iteration of \<^verbatim>\<open>while True\<close>: the session is committed only when \<^verbatim>\<open>updated\<close>
  is set, and closed (its uncommitted changes dropped) otherwise. The commit inside
  \<^verbatim>\<open>update_machine_status\<close> happens only in the branch that has set \<^verbatim>\<open>updated\<close>, so
  the final commit covers it.
\<close>

definition automatic_meter_counter :: "time \<Rightarrow> db \<Rightarrow> db" where
  "automatic_meter_counter now d =
     (case meter_loop now (machines d) (metadata d) (logs d) False of
        (ms, metas, lg, updated) \<Rightarrow>
          if updated then \<lparr>machines = ms, metadata = metas, logs = lg\<rparr> else d)"

section \<open>Automatic assignment (erpnext_sync.py)\<close>

text \<open>
  The session of \<^verbatim>\<open>auto_assign_work_orders\<close>: the rows as committed, and the rows as
  the open transaction sees them. A store call can raise; which one does, for the work
  order being processed, is an input of the model.
\<close>

datatype error = KeyError | SQLAlchemyError

datatype fault = NoFault | ExistingQueryFails | FreeQueryFails | MetadataQueryFails | CommitFails

record session =
  committed :: db
  pending :: db

definition commit :: "session \<Rightarrow> session" where
  "commit s = s\<lparr>committed := pending s\<rparr>"

definition rollback :: "session \<Rightarrow> session" where
  "rollback s = s\<lparr>pending := committed s\<rparr>"

text \<open>The filter of the query for free machines, on one row.\<close>

definition is_free :: "string option \<Rightarrow> machine \<Rightarrow> bool" where
  "is_free location m =
     (m_location m = location \<and> m_is_locked m = False
      \<and> m_status m \<in> set [''free'', ''paused'', ''stopped''])"

text \<open>The rows the query returns, as positions in the table, in the table's order.\<close>

definition free_machines :: "machine list \<Rightarrow> string option \<Rightarrow> nat list" where
  "free_machines ms location = filter (\<lambda>i. is_free location (ms ! i)) [0..<length ms]"

text \<open>The \<^verbatim>\<open>for m in free_machines\<close> loop with its \<^verbatim>\<open>break\<close>.\<close>

fun prefer_pipe_size :: "machine list \<Rightarrow> string option \<Rightarrow> nat list \<Rightarrow> nat option" where
  "prefer_pipe_size ms pipe_size [] = None"
| "prefer_pipe_size ms pipe_size (i # is) =
     (if m_pipe_size (ms ! i) = pipe_size then Some i else prefer_pipe_size ms pipe_size is)"

definition select_machine :: "machine list \<Rightarrow> string option \<Rightarrow> nat \<Rightarrow> nat list \<Rightarrow> nat" where
  "select_machine ms pipe_size i0 rest =
     (case prefer_pipe_size ms pipe_size (i0 # rest) of Some i \<Rightarrow> i | None \<Rightarrow> i0)"

text \<open>\<^verbatim>\<open>wo.get("qty", 0)\<close> and \<^verbatim>\<open>wo.get("produced_qty", 0)\<close>.\<close>

definition get_qty :: "work_order \<Rightarrow> int" where
  "get_qty wo = (case wo_qty wo of None \<Rightarrow> 0 | Some q \<Rightarrow> q)"

definition get_produced_qty :: "work_order \<Rightarrow> int" where
  "get_produced_qty wo = (case wo_produced_qty wo of None \<Rightarrow> 0 | Some q \<Rightarrow> q)"

text \<open>The seven assignments to the selected row.\<close>

definition assign_fields :: "machine \<Rightarrow> string \<Rightarrow> work_order \<Rightarrow> machine" where
  "assign_fields m wname wo =
     m\<lparr>m_erpnext_work_order_id := Some wname, m_work_order := Some wname,
       m_pipe_size := wo_custom_pipe_size wo, m_target_qty := get_qty wo,
       m_produced_qty := get_produced_qty wo,
       m_status := ''paused'', m_is_locked := True\<rparr>"

definition upsert_metadata ::
  "time \<Rightarrow> int \<Rightarrow> string \<Rightarrow> erpnext_metadata list \<Rightarrow> erpnext_metadata list" where
  "upsert_metadata now mid wname metas =
     (if \<exists>x \<in> set metas. meta_work_order x = Some wname
      then update_first (\<lambda>x. meta_work_order x = Some wname)
             (\<lambda>x. x\<lparr>meta_machine_id := mid, meta_erp_status := ''Assigned'',
                    meta_last_synced := now\<rparr>) metas
      else metas @ [\<lparr>meta_machine_id = mid, meta_work_order = Some wname,
                     meta_erp_status = ''Assigned'', meta_last_synced = now\<rparr>])"

text \<open>
  The body of \<^verbatim>\<open>for wo in work_orders\<close> for one work order. The result is the
  exception raised, if any, and the session at that point.
\<close>

definition assign_work_order ::
  "fault \<Rightarrow> time \<Rightarrow> work_order \<Rightarrow> session \<Rightarrow> error option \<times> session" where
  "assign_work_order flt now wo s =
     (case wo_name wo of
        None \<Rightarrow> (Some KeyError, s)
      | Some wname \<Rightarrow>
     (case wo_status wo of
        None \<Rightarrow> (Some KeyError, s)
      | Some wstatus \<Rightarrow>
          if wstatus = ''In Process'' then (None, s)
          else if truthy_str (wo_custom_machine_id wo) then (None, s)
          else
            let location = wo_custom_location wo;
                pipe_size = wo_custom_pipe_size wo;
                ms = machines (pending s)
            in if flt = ExistingQueryFails then (Some SQLAlchemyError, s)
               else if \<exists>m \<in> set ms. m_erpnext_work_order_id m = Some wname then (None, s)
               else if flt = FreeQueryFails then (Some SQLAlchemyError, s)
               else (case free_machines ms location of
                  [] \<Rightarrow> (None, s)
                | i0 # rest \<Rightarrow>
                    let i = select_machine ms pipe_size i0 rest;
                        ms1 = ms[i := assign_fields (ms ! i) wname wo];
                        s1 = s\<lparr>pending := (pending s)\<lparr>machines := ms1\<rparr>\<rparr>
                    in if flt = MetadataQueryFails then (Some SQLAlchemyError, s1)
                       else
                         let metas1 = upsert_metadata now (m_id (ms1 ! i)) wname (metadata (pending s1));
                             s2 = s1\<lparr>pending := (pending s1)\<lparr>metadata := metas1\<rparr>\<rparr>
                         in if flt = CommitFails then (Some SQLAlchemyError, s2)
                            else (None, commit s2))))"

text \<open>
  The loop over the work orders: an exception leaves the loop. The k-th fault of the
  list belongs to the k-th work order; past the end of the list there is no fault.
\<close>

fun assign_loop ::
  "time \<Rightarrow> fault list \<Rightarrow> work_order list \<Rightarrow> session \<Rightarrow> error option \<times> session" where
  "assign_loop now faults [] s = (None, s)"
| "assign_loop now faults (wo # wos) s =
     (case assign_work_order (case faults of [] \<Rightarrow> NoFault | f # _ \<Rightarrow> f) now wo s of
        (Some e, s') \<Rightarrow> (Some e, s')
      | (None, s') \<Rightarrow> assign_loop now (tl faults) wos s')"

text \<open>
  \<^verbatim>\<open>auto_assign_work_orders\<close>: both handlers roll the session back, and closing the
  session drops what is not committed. The result is the committed rows and the
  exception that was caught, if any; none is raised to the caller.
\<close>

definition auto_assign_work_orders ::
  "time \<Rightarrow> fault list \<Rightarrow> work_order list \<Rightarrow> db \<Rightarrow> db \<times> error option" where
  "auto_assign_work_orders now faults work_orders d =
     (let s = \<lparr>committed = d, pending = d\<rparr>
      in if work_orders = [] then (committed s, None)
         else (case assign_loop now faults work_orders s of
                 (Some e, s') \<Rightarrow> (committed (rollback s'), Some e)
               | (None, s') \<Rightarrow> (committed s', None)))"

text \<open>
  \<^verbatim>\<open>erpnext_sync_loop\<close>, run for as many iterations as there are inputs: the time, the
  faults and the fetched work orders of each iteration. It returns the rows and what
  each iteration caught.
\<close>

fun erpnext_sync_loop ::
  "(time \<times> fault list \<times> work_order list) list \<Rightarrow> db \<Rightarrow> db \<times> error option list" where
  "erpnext_sync_loop [] d = (d, [])"
| "erpnext_sync_loop ((now, faults, wos) # rest) d =
     (case auto_assign_work_orders now faults wos d of
        (d', caught) \<Rightarrow>
          (case erpnext_sync_loop rest d' of (d'', cs) \<Rightarrow> (d'', caught # cs)))"

section \<open>Production alerts (main.py)\<close>

text \<open>
  The percentage is computed in floating point by the source; here it is the exact
  quotient. An alert is the machine id and the level of the broadcast message.
\<close>

type_synonym alert_history = "int \<rightharpoonup> nat"

record alert =
  alert_machine_id :: int
  alert_level :: nat

definition percent_of :: "machine \<Rightarrow> rat" where
  "percent_of m = (of_int (m_produced_qty m) / of_int (m_target_qty m)) * 100"

definition level_of :: "rat \<Rightarrow> nat" where
  "level_of percent =
     (if 100 \<le> percent then 3 else if 90 \<le> percent then 2 else if 75 \<le> percent then 1 else 0)"

definition last_level_of :: "alert_history \<Rightarrow> int \<Rightarrow> nat" where
  "last_level_of h k = (case h k of None \<Rightarrow> 0 | Some l \<Rightarrow> l)"

definition alert_step :: "machine \<Rightarrow> alert_history \<Rightarrow> alert list \<Rightarrow> alert_history \<times> alert list" where
  "alert_step m h out =
     (if \<not> truthy_str (m_work_order m) \<or> m_status m \<noteq> ''running'' then (h, out)
      else
        let percent = percent_of m;
            last_level = last_level_of h (m_id m);
            alert_level = level_of percent
        in if 0 < alert_level \<and> alert_level \<noteq> last_level
           then (h(m_id m \<mapsto> alert_level),
                 out @ [\<lparr>alert_machine_id = m_id m, alert_level = alert_level\<rparr>])
           else if percent < 75 then (h(m_id m \<mapsto> 0), out)
           else (h, out))"

fun alert_loop :: "machine list \<Rightarrow> alert_history \<Rightarrow> alert list \<Rightarrow> alert_history \<times> alert list" where
  "alert_loop [] h out = (h, out)"
| "alert_loop (m # ms) h out = (case alert_step m h out of (h', out') \<Rightarrow> alert_loop ms h' out')"

text \<open>One iteration of \<^verbatim>\<open>while True\<close> in \<^verbatim>\<open>production_alerts\<close>.\<close>

definition production_alerts :: "db \<Rightarrow> alert_history \<Rightarrow> alert_history \<times> alert list" where
  "production_alerts d h = alert_loop (filter (\<lambda>m. 0 < m_target_qty m) (machines d)) h []"

text \<open>
  Successive iterations, each reading the rows as they are at that moment; the result is
  the alerts of each iteration.
\<close>

fun production_alerts_run :: "db list \<Rightarrow> alert_history \<Rightarrow> alert list list" where
  "production_alerts_run [] h = []"
| "production_alerts_run (d # ds) h =
     (case production_alerts d h of (h', out) \<Rightarrow> out # production_alerts_run ds h')"

section \<open>Properties of the rows\<close>

text \<open>The two invariants of the machine table.\<close>

definition lock_ok :: "machine \<Rightarrow> bool" where
  "lock_ok m = ((m_status m = ''running'' \<longrightarrow> m_is_locked m)
                \<and> (m_status m = ''completed'' \<longrightarrow> \<not> m_is_locked m))"

definition lock_inv :: "db \<Rightarrow> bool" where
  "lock_inv d = (\<forall>m \<in> set (machines d). lock_ok m)"


text \<open>
  A row the query for free machines can return, whatever the location; and the batches
  of work orders none of whose ids is carried by such a row.
\<close>

definition eligible :: "machine \<Rightarrow> bool" where
  "eligible m = (\<not> m_is_locked m \<and> m_status m \<in> set [''free'', ''paused'', ''stopped''])"

definition no_eligible_carrier :: "work_order list \<Rightarrow> machine list \<Rightarrow> bool" where
  "no_eligible_carrier wos ms =
     (\<forall>m \<in> set ms. \<forall>wo \<in> set wos.
        eligible m \<longrightarrow> wo_name wo = None \<or> m_erpnext_work_order_id m \<noteq> wo_name wo)"

text \<open>The fault that belongs to the k-th work order of a batch.\<close>

definition fault_at :: "fault list \<Rightarrow> nat \<Rightarrow> fault" where
  "fault_at faults k = (case drop k faults of [] \<Rightarrow> NoFault | f # _ \<Rightarrow> f)"

text \<open>
  The guard of the advance in \<^verbatim>\<open>automatic_meter_counter\<close>, and what one iteration
  does to one row of the machine table.
\<close>

definition advances :: "time \<Rightarrow> machine \<Rightarrow> bool" where
  "advances now m =
     (truthy_num (m_seconds_per_meter m) \<and> truthy_str (m_work_order m)
      \<and> (case m_last_tick_time m of None \<Rightarrow> False
          | Some t \<Rightarrow> the (m_seconds_per_meter m) \<le> now - t \<and> m_produced_qty m < m_target_qty m))"

definition meter_row :: "time \<Rightarrow> machine \<Rightarrow> machine" where
  "meter_row now m =
     (if m_status m = ''running'' then fst (meter_step now m [] [] False) else m)"

text \<open>The advance that reaches the target.\<close>

definition completes :: "time \<Rightarrow> machine \<Rightarrow> bool" where
  "completes now m = (advances now m \<and> m_target_qty m \<le> m_produced_qty m + 1)"

text \<open>
  The work orders the pass assigns with the rows as they are, the position it selects,
  and the rows after the assignment.
\<close>

definition assignable :: "work_order \<Rightarrow> machine list \<Rightarrow> string \<Rightarrow> bool" where
  "assignable wo ms wname =
     (wo_name wo = Some wname
      \<and> (\<exists>st. wo_status wo = Some st \<and> st \<noteq> ''In Process'')
      \<and> \<not> truthy_str (wo_custom_machine_id wo)
      \<and> (\<forall>m \<in> set ms. m_erpnext_work_order_id m \<noteq> Some wname)
      \<and> free_machines ms (wo_custom_location wo) \<noteq> [])"

definition selected :: "machine list \<Rightarrow> work_order \<Rightarrow> nat" where
  "selected ms wo =
     (case free_machines ms (wo_custom_location wo) of
        [] \<Rightarrow> 0
      | i0 # rest \<Rightarrow> select_machine ms (wo_custom_pipe_size wo) i0 rest)"

definition assigned_db :: "time \<Rightarrow> work_order \<Rightarrow> string \<Rightarrow> db \<Rightarrow> db" where
  "assigned_db now wo wname d =
     d\<lparr>machines := (machines d)[selected (machines d) wo :=
                       assign_fields (machines d ! selected (machines d) wo) wname wo],
       metadata := upsert_metadata now (m_id (machines d ! selected (machines d) wo)) wname
                     (metadata d)\<rparr>"

text \<open>
  How the machine table changes over assignments: a row stays as it is, or a row that
  the query for free machines could return becomes one that it cannot.
\<close>

definition grows :: "machine list \<Rightarrow> machine list \<Rightarrow> bool" where
  "grows ms ms' =
     (length ms' = length ms
      \<and> (\<forall>i < length ms. ms' ! i = ms ! i
            \<or> (eligible (ms ! i) \<and> \<not> eligible (ms' ! i))))"


text \<open>
  The work orders of the machine table: each row carries its work order under both
  names, and no two rows carry the same one.
\<close>

definition work_orders_unique :: "db \<Rightarrow> bool" where
  "work_orders_unique d =
     ((\<forall>m \<in> set (machines d). m_work_order m = m_erpnext_work_order_id m)
      \<and> (\<forall>i < length (machines d). \<forall>j < length (machines d).
            i \<noteq> j \<longrightarrow> m_work_order (machines d ! i) = None
                      \<or> m_work_order (machines d ! i) \<noteq> m_work_order (machines d ! j)))"

section \<open>Example rows\<close>

text \<open>
  Machines, work orders and stores at which the theorems below are evaluated: a running
  machine with its assignment record, free machines at one location, and work orders for
  that location.
\<close>

definition ex_running :: machine where
  "ex_running = \<lparr>m_id = 1, m_location = Some ''X'', m_name = ''Machine 1'', m_status = ''running'',
     m_is_locked = True, m_work_order = Some ''WO1'', m_erpnext_work_order_id = Some ''WO1'',
     m_pipe_size = Some ''20'', m_target_qty = 100, m_produced_qty = 0,
     m_seconds_per_meter = Some 20, m_last_tick_time = Some 0\<rparr>"

definition ex_meta :: erpnext_metadata where
  "ex_meta = \<lparr>meta_machine_id = 1, meta_work_order = Some ''WO1'', meta_erp_status = ''Assigned'',
     meta_last_synced = 0\<rparr>"

definition ex_db_running :: db where
  "ex_db_running = \<lparr>machines = [ex_running], metadata = [ex_meta], logs = []\<rparr>"

definition ex_last_unit :: machine where
  "ex_last_unit = ex_running\<lparr>m_produced_qty := 99\<rparr>"

definition ex_db_last_unit :: db where
  "ex_db_last_unit = \<lparr>machines = [ex_last_unit], metadata = [ex_meta], logs = []\<rparr>"

definition ex_free :: machine where
  "ex_free = \<lparr>m_id = 1, m_location = Some ''X'', m_name = ''Machine 1'', m_status = ''free'',
     m_is_locked = False, m_work_order = None, m_erpnext_work_order_id = None,
     m_pipe_size = Some ''20'', m_target_qty = 100, m_produced_qty = 0,
     m_seconds_per_meter = Some 20, m_last_tick_time = None\<rparr>"

definition ex_wo :: work_order where
  "ex_wo = \<lparr>wo_name = Some ''WO1'', wo_status = Some ''Not Started'', wo_custom_machine_id = None,
     wo_custom_location = Some ''X'', wo_custom_pipe_size = Some ''20'',
     wo_qty = Some 100, wo_produced_qty = None\<rparr>"

definition ex_wo_over :: work_order where
  "ex_wo_over = ex_wo\<lparr>wo_qty := Some 10, wo_produced_qty := Some 20\<rparr>"

definition ex_db_free :: db where
  "ex_db_free = \<lparr>machines = [ex_free], metadata = [], logs = []\<rparr>"

definition ex_sizes :: "machine list" where
  "ex_sizes = [ex_free\<lparr>m_pipe_size := Some ''A''\<rparr>,
               ex_free\<lparr>m_id := 2, m_pipe_size := Some ''B''\<rparr>,
               ex_free\<lparr>m_id := 3, m_pipe_size := Some ''B''\<rparr>]"

definition ex_session_sizes :: session where
  "ex_session_sizes = \<lparr>committed = \<lparr>machines = ex_sizes, metadata = [], logs = []\<rparr>,
                       pending = \<lparr>machines = ex_sizes, metadata = [], logs = []\<rparr>\<rparr>"

definition ex_wo_B :: work_order where
  "ex_wo_B = ex_wo\<lparr>wo_custom_pipe_size := Some ''B''\<rparr>"

definition ex_free2 :: machine where
  "ex_free2 = ex_free\<lparr>m_id := 2, m_name := ''Machine 2''\<rparr>"

definition ex_wo2 :: work_order where
  "ex_wo2 = ex_wo\<lparr>wo_name := Some ''WO2''\<rparr>"

definition ex_db_two :: db where
  "ex_db_two = \<lparr>machines = [ex_free, ex_free2], metadata = [], logs = []\<rparr>"

definition ex_db_two_assigned :: db where
  "ex_db_two_assigned =
     \<lparr>machines = [assign_fields ex_free ''WO1'' ex_wo, ex_free2],
      metadata = [\<lparr>meta_machine_id = 1, meta_work_order = Some ''WO1'',
                   meta_erp_status = ''Assigned'', meta_last_synced = 5\<rparr>],
      logs = []\<rparr>"

definition ex_done_paused :: machine where
  "ex_done_paused = ex_free\<lparr>m_status := ''paused'', m_work_order := Some ''WO1'',
     m_erpnext_work_order_id := Some ''WO1'', m_produced_qty := 100\<rparr>"

definition ex_db_carrier :: db where
  "ex_db_carrier = \<lparr>machines = [ex_done_paused, ex_free2], metadata = [], logs = []\<rparr>"

definition ex_at :: "int \<Rightarrow> machine" where
  "ex_at p = ex_running\<lparr>m_produced_qty := p\<rparr>"

definition ex_db_at :: "int \<Rightarrow> db" where
  "ex_db_at p = \<lparr>machines = [ex_at p], metadata = [], logs = []\<rparr>"

section \<open>Looking rows up\<close>

lemma first_index_Some:
  "first_index p xs = Some i \<Longrightarrow> i < length xs \<and> p (xs ! i) \<and> (\<forall>j<i. \<not> p (xs ! j))"
proof (induction xs arbitrary: i)
  case Nil
  then show ?case by simp
next
  case (Cons x xs)
  show ?case
  proof (cases "p x")
    case True
    with Cons.prems show ?thesis by simp
  next
    case False
    with Cons.prems obtain k where k: "first_index p xs = Some k" "i = Suc k"
      by auto
    from Cons.IH [OF k(1)] False k(2) show ?thesis
      by (auto simp: nth_Cons split: nat.splits)
  qed
qed

lemma first_index_None: "first_index p xs = None \<longleftrightarrow> (\<forall>x \<in> set xs. \<not> p x)"
  by (induction xs) auto

section \<open>The pause handler\<close>

text \<open>
  Claim C10. For every machine of the store that has a location, the pause request for
  its id and location succeeds whatever the status of the row is, and changes one row
  of the machine table: the first one with this id and location. Its status becomes
  \<^verbatim>\<open>paused\<close>; \<^verbatim>\<open>is_locked\<close>, \<^verbatim>\<open>work_order\<close>, \<^verbatim>\<open>produced_qty\<close>, \<^verbatim>\<open>target_qty\<close>,
  \<^verbatim>\<open>pipe_size\<close> and \<^verbatim>\<open>last_tick_time\<close> keep their values, and so does every other
  field. No other row, no metadata and no log changes.
\<close>

theorem pause_machine_frame:
  assumes "m \<in> set (machines d)" and "m_location m = Some location"
  shows "\<exists>i < length (machines d).
           m_id (machines d ! i) = m_id m \<and> m_location (machines d ! i) = Some location
         \<and> snd (pause_machine location (m_id m) d) = True
         \<and> length (machines (fst (pause_machine location (m_id m) d))) = length (machines d)
         \<and> (\<forall>j < length (machines d). j \<noteq> i \<longrightarrow>
               machines (fst (pause_machine location (m_id m) d)) ! j = machines d ! j)
         \<and> m_status (machines (fst (pause_machine location (m_id m) d)) ! i) = ''paused''
         \<and> m_is_locked (machines (fst (pause_machine location (m_id m) d)) ! i) = m_is_locked (machines d ! i)
         \<and> m_work_order (machines (fst (pause_machine location (m_id m) d)) ! i) = m_work_order (machines d ! i)
         \<and> m_produced_qty (machines (fst (pause_machine location (m_id m) d)) ! i) = m_produced_qty (machines d ! i)
         \<and> m_target_qty (machines (fst (pause_machine location (m_id m) d)) ! i) = m_target_qty (machines d ! i)
         \<and> m_pipe_size (machines (fst (pause_machine location (m_id m) d)) ! i) = m_pipe_size (machines d ! i)
         \<and> m_last_tick_time (machines (fst (pause_machine location (m_id m) d)) ! i) = m_last_tick_time (machines d ! i)
         \<and> machines (fst (pause_machine location (m_id m) d)) ! i = (machines d ! i)\<lparr>m_status := ''paused''\<rparr>
         \<and> metadata (fst (pause_machine location (m_id m) d)) = metadata d
         \<and> logs (fst (pause_machine location (m_id m) d)) = logs d"
proof -
  from assms have "get_machine d location (m_id m) \<noteq> None"
    by (auto simp: get_machine_def first_index_None)
  then obtain i where i: "get_machine d location (m_id m) = Some i" by auto
  from first_index_Some [OF i [unfolded get_machine_def]]
  have "i < length (machines d)" "m_id (machines d ! i) = m_id m"
    "m_location (machines d ! i) = Some location" by auto
  then show ?thesis using i
    by (intro exI [of _ i]) (simp add: pause_machine_def)
qed

theorem pause_machine_frame_witness:
  "ex_running \<in> set (machines ex_db_running) \<and> m_location ex_running = Some ''X''
   \<and> pause_machine ''X'' 1 ex_db_running
       = (ex_db_running\<lparr>machines := [ex_running\<lparr>m_status := ''paused''\<rparr>]\<rparr>, True)"
  using pause_machine_frame [of ex_running ex_db_running "''X''"]
  by (simp add: ex_db_running_def ex_running_def pause_machine_def get_machine_def)

section \<open>The meter counter\<close>

lemma meter_step_machine:
  "fst (meter_step now m metas lg u) = fst (meter_step now m [] [] False)"
  by (simp add: meter_step_def Let_def split: option.splits)

lemma meter_step_updated:
  "snd (snd (snd (meter_step now m metas lg u))) = (u \<or> advances now m)"
  by (auto simp: meter_step_def advances_def Let_def split: option.splits)

lemma meter_loop_machines:
  "fst (meter_loop now ms metas lg u) = map (meter_row now) ms"
proof (induction ms arbitrary: metas lg u)
  case Nil
  show ?case by simp
next
  case (Cons m ms)
  show ?case
  proof (cases "m_status m = ''running''")
    case True
    obtain m' metas' lg' u' where st: "meter_step now m metas lg u = (m', metas', lg', u')"
      by (cases "meter_step now m metas lg u") auto
    have "m' = fst (meter_step now m [] [] False)"
      using meter_step_machine [of now m metas lg u] st by simp
    then show ?thesis
      using True st Cons.IH [of metas' lg' u']
      by (auto simp: meter_row_def split: prod.splits)
  next
    case False
    then show ?thesis
      using Cons.IH [of metas lg u] by (auto simp: meter_row_def split: prod.splits)
  qed
qed

lemma meter_loop_updated:
  "snd (snd (snd (meter_loop now ms metas lg u)))
     = (u \<or> (\<exists>m \<in> set ms. m_status m = ''running'' \<and> advances now m))"
proof (induction ms arbitrary: metas lg u)
  case Nil
  show ?case by simp
next
  case (Cons m ms)
  show ?case
  proof (cases "m_status m = ''running''")
    case True
    obtain m' metas' lg' u' where st: "meter_step now m metas lg u = (m', metas', lg', u')"
      by (cases "meter_step now m metas lg u") auto
    have "u' = (u \<or> advances now m)"
      using meter_step_updated [of now m metas lg u] st by simp
    then show ?thesis
      using True st Cons.IH [of metas' lg' u']
      by (auto split: prod.splits)
  next
    case False
    then show ?thesis
      using Cons.IH [of metas lg u] by (auto split: prod.splits)
  qed
qed

lemma meter_row_not_advancing:
  "\<not> (m_status m = ''running'' \<and> advances now m) \<Longrightarrow> m_produced_qty (meter_row now m) = m_produced_qty m"
  by (auto simp: meter_row_def meter_step_def advances_def Let_def split: option.splits)

lemma meter_row_advancing:
  "m_status m = ''running'' \<Longrightarrow> advances now m
     \<Longrightarrow> m_produced_qty (meter_row now m) = m_produced_qty m + 1"
  by (auto simp: meter_row_def meter_step_def advances_def update_machine_status_def Let_def
      split: option.splits)

lemma automatic_meter_counter_length:
  "length (machines (automatic_meter_counter now d)) = length (machines d)"
  using meter_loop_machines [of now "machines d" "metadata d" "logs d" False]
  by (auto simp: automatic_meter_counter_def split: prod.splits)

lemma automatic_meter_counter_produced:
  assumes "i < length (machines d)"
  shows "m_produced_qty (machines (automatic_meter_counter now d) ! i)
           = m_produced_qty (meter_row now (machines d ! i))"
proof (cases "meter_loop now (machines d) (metadata d) (logs d) False")
  case (fields ms metas lg u)
  have ms: "ms = map (meter_row now) (machines d)"
    using meter_loop_machines [of now "machines d" "metadata d" "logs d" False] fields by simp
  have u: "u = (\<exists>m \<in> set (machines d). m_status m = ''running'' \<and> advances now m)"
    using meter_loop_updated [of now "machines d" "metadata d" "logs d" False] fields by simp
  show ?thesis
  proof (cases u)
    case True
    then show ?thesis using fields ms assms by (simp add: automatic_meter_counter_def)
  next
    case False
    then have "\<not> (m_status (machines d ! i) = ''running'' \<and> advances now (machines d ! i))"
      using u assms nth_mem by blast
    then show ?thesis
      using False fields by (simp add: automatic_meter_counter_def meter_row_not_advancing)
  qed
qed

text \<open>
  Claim C1. One iteration of the meter counter leaves the \<^verbatim>\<open>produced_qty\<close> of every
  row as it is or adds exactly 1. For a running row with a work order, a positive
  \<^verbatim>\<open>seconds_per_meter\<close> and a tick time, it adds exactly 1 as soon as the time elapsed
  is at least \<open>k\<close> times \<^verbatim>\<open>seconds_per_meter\<close> for some \<open>k \<ge> 1\<close> and
  \<^verbatim>\<open>produced_qty\<close> is below \<^verbatim>\<open>target_qty\<close>: one unit, not \<open>k\<close>.
\<close>

theorem single_unit_per_tick:
  assumes "i < length (machines d)"
  shows "length (machines (automatic_meter_counter now d)) = length (machines d)
       \<and> (m_produced_qty (machines (automatic_meter_counter now d) ! i) = m_produced_qty (machines d ! i)
          \<or> m_produced_qty (machines (automatic_meter_counter now d) ! i) = m_produced_qty (machines d ! i) + 1)
       \<and> (m_status (machines d ! i) = ''running'' \<and> truthy_str (m_work_order (machines d ! i))
          \<and> m_seconds_per_meter (machines d ! i) = Some spm \<and> 0 < spm
          \<and> m_last_tick_time (machines d ! i) = Some t
          \<and> 1 \<le> k \<and> of_nat k * spm \<le> now - t
          \<and> m_produced_qty (machines d ! i) < m_target_qty (machines d ! i)
          \<longrightarrow> m_produced_qty (machines (automatic_meter_counter now d) ! i)
                = m_produced_qty (machines d ! i) + 1)"
proof -
  let ?m = "machines d ! i"
  have p: "m_produced_qty (machines (automatic_meter_counter now d) ! i)
             = m_produced_qty (meter_row now ?m)"
    using assms by (rule automatic_meter_counter_produced)
  have one: "m_produced_qty (meter_row now ?m) = m_produced_qty ?m
           \<or> m_produced_qty (meter_row now ?m) = m_produced_qty ?m + 1"
    using meter_row_not_advancing [of ?m now] meter_row_advancing [of ?m now] by blast
  have adv: "m_produced_qty (meter_row now ?m) = m_produced_qty ?m + 1"
    if h: "m_status ?m = ''running''" "truthy_str (m_work_order ?m)"
      "m_seconds_per_meter ?m = Some spm" "0 < spm" "m_last_tick_time ?m = Some t"
      "1 \<le> k" "of_nat k * spm \<le> now - t" "m_produced_qty ?m < m_target_qty ?m"
  proof -
    have "1 * spm \<le> of_nat k * spm"
      using h(4,6) by (intro mult_right_mono) auto
    then have "spm \<le> now - t" using h(7) by simp
    then have "advances now ?m"
      using h by (simp add: advances_def truthy_num_def)
    then show ?thesis using h(1) by (rule meter_row_advancing [rotated])
  qed
  show ?thesis
    using p one adv automatic_meter_counter_length [of now d] by auto
qed

theorem single_unit_per_tick_witness:
  "0 < length (machines ex_db_running)
   \<and> m_status (machines ex_db_running ! 0) = ''running''
   \<and> of_nat 5 * (20::rat) \<le> 100 - 0
   \<and> m_produced_qty (machines ex_db_running ! 0) = 0
   \<and> m_produced_qty (machines (automatic_meter_counter 100 ex_db_running) ! 0) = 1"
  using single_unit_per_tick [of 0 ex_db_running 100 20 0 5]
  by (simp add: ex_db_running_def ex_running_def truthy_str_def)

lemma update_first_length: "length (update_first p f xs) = length xs"
  by (induction xs) auto

lemma update_first_map_key:
  "(\<And>x. key (f x) = key x) \<Longrightarrow> map key (update_first p f xs) = map key xs"
  by (induction xs) auto

lemma update_first_other:
  "r < length xs \<Longrightarrow> \<not> p (xs ! r) \<Longrightarrow> update_first p f xs ! r = xs ! r"
proof (induction xs arbitrary: r)
  case Nil
  then show ?case by simp
next
  case (Cons x xs)
  then show ?case by (cases r) auto
qed

lemma update_first_at:
  "first_index p xs = Some r \<Longrightarrow> update_first p f xs = xs[r := f (xs ! r)]"
proof (induction xs arbitrary: r)
  case Nil
  then show ?case by simp
next
  case (Cons x xs)
  then show ?case by (cases "p x") auto
qed

lemma first_index_key:
  "map key xs = map key ys
     \<Longrightarrow> first_index (\<lambda>x. key x = w) xs = first_index (\<lambda>x. key x = w) ys"
proof (induction xs arbitrary: ys)
  case Nil
  then show ?case by simp
next
  case (Cons x xs)
  then obtain y ys' where ys: "ys = y # ys'" by (cases ys) auto
  with Cons.prems have "key x = key y" "map key xs = map key ys'" by auto
  with Cons.IH [of ys'] ys show ?case by simp
qed

lemma meter_step_metas_keys:
  "map meta_work_order (fst (snd (meter_step now m metas lg u))) = map meta_work_order metas"
  by (simp add: meter_step_def set_erp_status_def Let_def update_first_map_key
      split: option.splits)

lemma meter_step_metas_other:
  assumes "r < length metas" and "meta_work_order (metas ! r) \<noteq> m_work_order m"
  shows "fst (snd (meter_step now m metas lg u)) ! r = metas ! r"
proof -
  let ?p = "\<lambda>x. meta_work_order x = m_work_order m"
  let ?f = "\<lambda>x. x\<lparr>meta_erp_status := ''In Progress'', meta_last_synced := now\<rparr>"
  have a: "update_first ?p ?f metas ! r = metas ! r"
    using assms by (simp add: update_first_other)
  have "r < length (update_first ?p ?f metas)" using assms by (simp add: update_first_length)
  then have b: "set_erp_status (m_work_order m) ''Completed'' (update_first ?p ?f metas) ! r
                  = update_first ?p ?f metas ! r"
    unfolding set_erp_status_def using a assms(2) by (simp add: update_first_other)
  show ?thesis
    using a b by (simp add: meter_step_def Let_def split: option.splits)
qed

lemma meter_step_metas_completed:
  assumes "first_index (\<lambda>x. meta_work_order x = m_work_order m) metas = Some r"
    and "completes now m"
  shows "meta_erp_status (fst (snd (meter_step now m metas lg u)) ! r) = ''Completed''"
proof -
  let ?p = "\<lambda>x. meta_work_order x = m_work_order m"
  let ?f = "\<lambda>x. x\<lparr>meta_erp_status := ''In Progress'', meta_last_synced := now\<rparr>"
  let ?metas1 = "update_first ?p ?f metas"
  have r: "r < length metas" using first_index_Some [OF assms(1)] by simp
  have "map meta_work_order ?metas1 = map meta_work_order metas"
    by (simp add: update_first_map_key)
  then have "first_index ?p ?metas1 = Some r"
    using first_index_key [of meta_work_order ?metas1 metas "m_work_order m"] assms(1) by simp
  then have "set_erp_status (m_work_order m) ''Completed'' ?metas1
               = ?metas1[r := (?metas1 ! r)\<lparr>meta_erp_status := ''Completed''\<rparr>]"
    unfolding set_erp_status_def by (rule update_first_at)
  moreover have "r < length ?metas1" using r by (simp add: update_first_length)
  ultimately have "meta_erp_status (set_erp_status (m_work_order m) ''Completed'' ?metas1 ! r)
                     = ''Completed''"
    by simp
  then show ?thesis
    using assms(2)
    by (auto simp: meter_step_def completes_def advances_def Let_def split: option.splits)
qed

lemma meter_loop_metas_keys:
  "map meta_work_order (fst (snd (meter_loop now ms metas lg u))) = map meta_work_order metas"
proof (induction ms arbitrary: metas lg u)
  case Nil
  show ?case by simp
next
  case (Cons m ms)
  show ?case
  proof (cases "m_status m = ''running''")
    case True
    obtain m' metas' lg' u' where st: "meter_step now m metas lg u = (m', metas', lg', u')"
      by (cases "meter_step now m metas lg u") auto
    have "map meta_work_order metas' = map meta_work_order metas"
      using meter_step_metas_keys [of now m metas lg u] st by simp
    then show ?thesis
      using True st Cons.IH [of metas' lg' u'] by (auto split: prod.splits)
  next
    case False
    then show ?thesis using Cons.IH [of metas lg u] by (auto split: prod.splits)
  qed
qed

lemma meter_loop_metas_other:
  assumes "r < length metas"
    and "\<forall>m \<in> set ms. m_status m = ''running'' \<longrightarrow> m_work_order m \<noteq> meta_work_order (metas ! r)"
  shows "fst (snd (meter_loop now ms metas lg u)) ! r = metas ! r"
  using assms
proof (induction ms arbitrary: metas lg u)
  case Nil
  show ?case by simp
next
  case (Cons m ms)
  show ?case
  proof (cases "m_status m = ''running''")
    case True
    obtain m' metas' lg' u' where st: "meter_step now m metas lg u = (m', metas', lg', u')"
      by (cases "meter_step now m metas lg u") auto
    have neq: "meta_work_order (metas ! r) \<noteq> m_work_order m"
      using Cons.prems(2) True by auto
    have same: "metas' ! r = metas ! r"
      using meter_step_metas_other [OF Cons.prems(1) neq, of now lg u] st by simp
    have "length metas' = length metas"
      using meter_step_metas_keys [of now m metas lg u] st map_eq_imp_length_eq by fastforce
    then have "fst (snd (meter_loop now ms metas' lg' u')) ! r = metas' ! r"
      using Cons.prems same by (intro Cons.IH) auto
    then show ?thesis
      using True st same by (auto split: prod.splits)
  next
    case False
    have "fst (snd (meter_loop now ms metas lg u)) ! r = metas ! r"
      using Cons.prems by (intro Cons.IH) auto
    then show ?thesis using False by (auto split: prod.splits)
  qed
qed

lemma meter_loop_append:
  "meter_loop now (xs @ ys) metas lg u =
     (case meter_loop now xs metas lg u of
        (xs', metas', lg', u') \<Rightarrow>
          (case meter_loop now ys metas' lg' u' of (ys', rest) \<Rightarrow> (xs' @ ys', rest)))"
  by (induction xs arbitrary: metas lg u) (auto split: prod.splits)

lemma meter_loop_metas_completed:
  assumes i: "i < length ms"
    and run: "m_status (ms ! i) = ''running''"
    and comp: "completes now (ms ! i)"
    and others: "\<forall>j < length ms. j \<noteq> i \<and> m_status (ms ! j) = ''running''
                   \<longrightarrow> m_work_order (ms ! j) \<noteq> m_work_order (ms ! i)"
    and fi: "first_index (\<lambda>x. meta_work_order x = m_work_order (ms ! i)) metas = Some r"
  shows "meta_erp_status (fst (snd (meter_loop now ms metas lg u)) ! r) = ''Completed''"
proof -
  let ?w = "m_work_order (ms ! i)"
  let ?pre = "take i ms" and ?post = "drop (Suc i) ms"
  have split: "ms = ?pre @ (ms ! i # ?post)"
    using i by (simp add: id_take_nth_drop)
  obtain pre' metas1 lg1 u1 where pre: "meter_loop now ?pre metas lg u = (pre', metas1, lg1, u1)"
    by (cases "meter_loop now ?pre metas lg u") auto
  obtain m' metas2 lg2 u2 where st: "meter_step now (ms ! i) metas1 lg1 u1 = (m', metas2, lg2, u2)"
    by (cases "meter_step now (ms ! i) metas1 lg1 u1") auto
  have r: "r < length metas" and rw: "meta_work_order (metas ! r) = ?w"
    using first_index_Some [OF fi] by auto
  have keys1: "map meta_work_order metas1 = map meta_work_order metas"
    using meter_loop_metas_keys [of now ?pre metas lg u] pre by simp
  then have fi1: "first_index (\<lambda>x. meta_work_order x = ?w) metas1 = Some r"
    using first_index_key [of meta_work_order metas1 metas ?w] fi by simp
  have done2: "meta_erp_status (metas2 ! r) = ''Completed''"
    using meter_step_metas_completed [OF fi1 comp, of lg1 u1] st by simp
  have keys2: "map meta_work_order metas2 = map meta_work_order metas1"
    using meter_step_metas_keys [of now "ms ! i" metas1 lg1 u1] st by simp
  have len2: "length metas2 = length metas"
    using keys1 keys2 map_eq_imp_length_eq by metis
  have rw2: "meta_work_order (metas2 ! r) = ?w"
  proof -
    have "map meta_work_order metas2 ! r = map meta_work_order metas ! r"
      using keys1 keys2 by simp
    then show ?thesis using r len2 rw by simp
  qed
  have post_other: "\<forall>m \<in> set ?post. m_status m = ''running''
                      \<longrightarrow> m_work_order m \<noteq> meta_work_order (metas2 ! r)"
  proof (intro ballI impI)
    fix m assume m: "m \<in> set ?post" and mr: "m_status m = ''running''"
    then obtain k where k: "k < length ?post" "?post ! k = m"
      by (auto simp: in_set_conv_nth)
    then have "Suc i + k < length ms" "ms ! (Suc i + k) = m" by auto
    with others mr have "m_work_order m \<noteq> ?w" by (metis Suc_n_not_le_n add_Suc le_add1)
    then show "m_work_order m \<noteq> meta_work_order (metas2 ! r)" using rw2 by simp
  qed
  have "fst (snd (meter_loop now ?post metas2 lg2 u2)) ! r = metas2 ! r"
    using r len2 post_other by (intro meter_loop_metas_other) auto
  moreover have "fst (snd (meter_loop now ms metas lg u))
                   = fst (snd (meter_loop now ?post metas2 lg2 u2))"
    using pre st run
    by (subst split, subst meter_loop_append) (auto split: prod.splits)
  ultimately show ?thesis using done2 by simp
qed

lemma meter_row_completing:
  assumes "m_status m = ''running''" and "completes now m"
  shows "m_produced_qty (meter_row now m) = m_target_qty m
       \<and> m_target_qty (meter_row now m) = m_target_qty m
       \<and> m_status (meter_row now m) = ''completed''
       \<and> m_is_locked (meter_row now m) = False"
  using assms
  by (auto simp: meter_row_def meter_step_def completes_def advances_def
      update_machine_status_def Let_def split: option.splits)

lemma automatic_meter_counter_updated:
  assumes "i < length (machines d)" and "m_status (machines d ! i) = ''running''"
    and "advances now (machines d ! i)"
  shows "machines (automatic_meter_counter now d) = map (meter_row now) (machines d)
       \<and> metadata (automatic_meter_counter now d)
           = fst (snd (meter_loop now (machines d) (metadata d) (logs d) False))"
proof (cases "meter_loop now (machines d) (metadata d) (logs d) False")
  case (fields ms metas lg u)
  have "u = (\<exists>m \<in> set (machines d). m_status m = ''running'' \<and> advances now m)"
    using meter_loop_updated [of now "machines d" "metadata d" "logs d" False] fields by simp
  then have u using assms nth_mem by blast
  moreover have "ms = map (meter_row now) (machines d)"
    using meter_loop_machines [of now "machines d" "metadata d" "logs d" False] fields by simp
  ultimately show ?thesis
    using fields by (simp add: automatic_meter_counter_def)
qed

text \<open>
  Claim C5. A running row with a work order, a tick duration and a tick time, whose
  \<^verbatim>\<open>produced_qty\<close> is \<^verbatim>\<open>target_qty - 1\<close> and for which at least
  \<^verbatim>\<open>seconds_per_meter\<close> has elapsed, leaves one iteration of the meter counter with
  \<^verbatim>\<open>produced_qty = target_qty\<close>, status \<^verbatim>\<open>completed\<close> and \<^verbatim>\<open>is_locked = False\<close>. The
  metadata row of its work order (the first one with this work order) then has
  \<^verbatim>\<open>erp_status = Completed\<close>, provided no other running row carries the same work
  order: the row is looked up by work order, and a second machine advancing on the same
  work order would write \<^verbatim>\<open>In Progress\<close> into it.
\<close>

theorem clamp_and_complete:
  assumes "i < length (machines d)"
    and "m_status (machines d ! i) = ''running''"
    and "truthy_str (m_work_order (machines d ! i))"
    and "m_seconds_per_meter (machines d ! i) = Some spm" and "spm \<noteq> 0"
    and "m_last_tick_time (machines d ! i) = Some t" and "spm \<le> now - t"
    and "m_produced_qty (machines d ! i) = m_target_qty (machines d ! i) - 1"
  shows "m_produced_qty (machines (automatic_meter_counter now d) ! i) = m_target_qty (machines d ! i)
       \<and> m_target_qty (machines (automatic_meter_counter now d) ! i) = m_target_qty (machines d ! i)
       \<and> m_status (machines (automatic_meter_counter now d) ! i) = ''completed''
       \<and> m_is_locked (machines (automatic_meter_counter now d) ! i) = False
       \<and> ((\<forall>j < length (machines d). j \<noteq> i \<and> m_status (machines d ! j) = ''running''
              \<longrightarrow> m_work_order (machines d ! j) \<noteq> m_work_order (machines d ! i))
           \<and> first_index (\<lambda>x. meta_work_order x = m_work_order (machines d ! i)) (metadata d) = Some r
           \<longrightarrow> first_index (\<lambda>x. meta_work_order x = m_work_order (machines d ! i))
                  (metadata (automatic_meter_counter now d)) = Some r
             \<and> meta_erp_status (metadata (automatic_meter_counter now d) ! r) = ''Completed'')"
proof -
  let ?m = "machines d ! i"
  let ?w = "m_work_order ?m"
  have adv: "advances now ?m"
    using assms by (simp add: advances_def truthy_num_def)
  then have comp: "completes now ?m"
    using assms(8) by (simp add: completes_def)
  note upd = automatic_meter_counter_updated [OF assms(1,2) adv]
  have row: "machines (automatic_meter_counter now d) ! i = meter_row now ?m"
    using upd assms(1) by simp
  have meta: "first_index (\<lambda>x. meta_work_order x = ?w)
                  (metadata (automatic_meter_counter now d)) = Some r
             \<and> meta_erp_status (metadata (automatic_meter_counter now d) ! r) = ''Completed''"
    if others: "\<forall>j < length (machines d). j \<noteq> i \<and> m_status (machines d ! j) = ''running''
                  \<longrightarrow> m_work_order (machines d ! j) \<noteq> ?w"
      and fi: "first_index (\<lambda>x. meta_work_order x = ?w) (metadata d) = Some r"
  proof -
    have "map meta_work_order (metadata (automatic_meter_counter now d))
            = map meta_work_order (metadata d)"
      using upd by (simp add: meter_loop_metas_keys)
    then have "first_index (\<lambda>x. meta_work_order x = ?w)
                  (metadata (automatic_meter_counter now d)) = Some r"
      using first_index_key [of meta_work_order "metadata (automatic_meter_counter now d)"
          "metadata d" ?w] fi by simp
    moreover have "meta_erp_status (metadata (automatic_meter_counter now d) ! r) = ''Completed''"
      using upd meter_loop_metas_completed [OF assms(1,2) comp others fi] by simp
    ultimately show ?thesis by simp
  qed
  show ?thesis
    using row meter_row_completing [OF assms(2) comp] meta by simp
qed

theorem clamp_and_complete_witness:
  "0 < length (machines ex_db_last_unit)
   \<and> m_status (machines ex_db_last_unit ! 0) = ''running''
   \<and> m_produced_qty (machines ex_db_last_unit ! 0) = m_target_qty (machines ex_db_last_unit ! 0) - 1
   \<and> first_index (\<lambda>x. meta_work_order x = m_work_order (machines ex_db_last_unit ! 0))
        (metadata ex_db_last_unit) = Some 0
   \<and> m_produced_qty (machines (automatic_meter_counter 20 ex_db_last_unit) ! 0) = 100
   \<and> m_status (machines (automatic_meter_counter 20 ex_db_last_unit) ! 0) = ''completed''
   \<and> m_is_locked (machines (automatic_meter_counter 20 ex_db_last_unit) ! 0) = False
   \<and> meta_erp_status (metadata (automatic_meter_counter 20 ex_db_last_unit) ! 0) = ''Completed''"
  using clamp_and_complete [of 0 ex_db_last_unit 20 0 20 0]
  by (simp add: ex_db_last_unit_def ex_last_unit_def ex_running_def ex_meta_def truthy_str_def)

section \<open>The assignment pass\<close>

lemma free_machines_set:
  "set (free_machines ms location) = {i. i < length ms \<and> is_free location (ms ! i)}"
  by (auto simp: free_machines_def)

lemma free_machines_sorted: "sorted_wrt (<) (free_machines ms location)"
  by (simp add: free_machines_def sorted_wrt_filter)

lemma prefer_pipe_size_None:
  "prefer_pipe_size ms p is = None \<longleftrightarrow> (\<forall>i \<in> set is. m_pipe_size (ms ! i) \<noteq> p)"
  by (induction "is") auto

lemma prefer_pipe_size_Some:
  "prefer_pipe_size ms p is = Some i
     \<Longrightarrow> \<exists>pre post. is = pre @ i # post \<and> m_pipe_size (ms ! i) = p
           \<and> (\<forall>j \<in> set pre. m_pipe_size (ms ! j) \<noteq> p)"
proof (induction "is")
  case Nil
  then show ?case by simp
next
  case (Cons a "is")
  show ?case
  proof (cases "m_pipe_size (ms ! a) = p")
    case True
    with Cons.prems have "a = i" by simp
    with True show ?thesis by (intro exI [of _ "[]"] exI [of _ "is"]) auto
  next
    case False
    with Cons.prems have "prefer_pipe_size ms p is = Some i" by simp
    from Cons.IH [OF this] obtain pre post where
      "is = pre @ i # post" "m_pipe_size (ms ! i) = p" "\<forall>j \<in> set pre. m_pipe_size (ms ! j) \<noteq> p"
      by blast
    with False show ?thesis by (intro exI [of _ "a # pre"] exI [of _ post]) auto
  qed
qed

lemma select_machine_spec:
  assumes "sorted_wrt (<) (i0 # rest)"
  shows "select_machine ms p i0 rest \<in> set (i0 # rest)
       \<and> ((\<exists>j \<in> set (i0 # rest). m_pipe_size (ms ! j) = p)
            \<longrightarrow> m_pipe_size (ms ! select_machine ms p i0 rest) = p
              \<and> (\<forall>j \<in> set (i0 # rest). j < select_machine ms p i0 rest
                    \<longrightarrow> m_pipe_size (ms ! j) \<noteq> p))
       \<and> ((\<forall>j \<in> set (i0 # rest). m_pipe_size (ms ! j) \<noteq> p)
            \<longrightarrow> select_machine ms p i0 rest = i0)
       \<and> (\<forall>j \<in> set (i0 # rest). i0 \<le> j)"
proof -
  let ?sel = "select_machine ms p i0 rest"
  have least: "\<forall>j \<in> set (i0 # rest). i0 \<le> j"
    using assms by (simp add: less_imp_le)
  show ?thesis
  proof (cases "prefer_pipe_size ms p (i0 # rest)")
    case None
    then have none: "\<forall>j \<in> set (i0 # rest). m_pipe_size (ms ! j) \<noteq> p"
      by (simp only: prefer_pipe_size_None)
    have sel: "?sel = i0"
      using None by (simp add: select_machine_def)
    have c1: "?sel \<in> set (i0 # rest)" using sel by simp
    have c2: "(\<exists>j \<in> set (i0 # rest). m_pipe_size (ms ! j) = p)
            \<longrightarrow> m_pipe_size (ms ! ?sel) = p
              \<and> (\<forall>j \<in> set (i0 # rest). j < ?sel \<longrightarrow> m_pipe_size (ms ! j) \<noteq> p)"
      using none by blast
    from c1 c2 sel least show ?thesis by blast
  next
    case (Some i)
    from prefer_pipe_size_Some [OF Some] obtain pre post where
      sp: "i0 # rest = pre @ i # post" "m_pipe_size (ms ! i) = p"
          "\<forall>j \<in> set pre. m_pipe_size (ms ! j) \<noteq> p"
      by blast
    have sel: "?sel = i"
      using Some by (simp add: select_machine_def)
    have "sorted_wrt (<) (pre @ i # post)" using assms by (simp only: sp(1))
    then have later: "\<forall>j \<in> set post. i < j"
      by (simp add: sorted_wrt_append)
    have "set (i0 # rest) = set (pre @ i # post)" by (simp only: sp(1))
    then have mem: "set (i0 # rest) = set pre \<union> {i} \<union> set post" by simp
    have c1: "?sel \<in> set (i0 # rest)" unfolding sel mem by simp
    have before: "\<forall>j \<in> set (i0 # rest). j < ?sel \<longrightarrow> m_pipe_size (ms ! j) \<noteq> p"
      unfolding sel mem using later sp(3) by auto
    have c3: "(\<forall>j \<in> set (i0 # rest). m_pipe_size (ms ! j) \<noteq> p) \<longrightarrow> ?sel = i0"
      using c1 sel sp(2) by blast
    have c2: "m_pipe_size (ms ! ?sel) = p" using sel sp(2) by simp
    from c1 c2 before c3 least show ?thesis by blast
  qed
qed

lemma selected_is_free:
  assumes "free_machines ms (wo_custom_location wo) \<noteq> []"
  shows "selected ms wo \<in> set (free_machines ms (wo_custom_location wo))"
proof -
  obtain i0 rest where c: "free_machines ms (wo_custom_location wo) = i0 # rest"
    using assms by (cases "free_machines ms (wo_custom_location wo)") auto
  have "sorted_wrt (<) (free_machines ms (wo_custom_location wo))"
    by (rule free_machines_sorted)
  then have "sorted_wrt (<) (i0 # rest)" by (simp only: c)
  then have "select_machine ms (wo_custom_pipe_size wo) i0 rest \<in> set (i0 # rest)"
    by (rule select_machine_spec [THEN conjunct1])
  moreover have "selected ms wo = select_machine ms (wo_custom_pipe_size wo) i0 rest"
    by (simp add: selected_def c)
  ultimately show ?thesis by (simp only: c)
qed

lemma assign_work_order_KeyError:
  "wo_name wo = None \<or> wo_status wo = None
     \<Longrightarrow> assign_work_order flt now wo s = (Some KeyError, s)"
  by (auto simp: assign_work_order_def split: option.splits)

lemma assign_work_order_unfold:
  assumes "wo_name wo = Some wname" and "wo_status wo = Some st"
  shows "assign_work_order flt now wo s =
     (if st = ''In Process'' \<or> truthy_str (wo_custom_machine_id wo) then (None, s)
      else if flt = ExistingQueryFails then (Some SQLAlchemyError, s)
      else if \<exists>m \<in> set (machines (pending s)). m_erpnext_work_order_id m = Some wname then (None, s)
      else if flt = FreeQueryFails then (Some SQLAlchemyError, s)
      else if free_machines (machines (pending s)) (wo_custom_location wo) = [] then (None, s)
      else if flt = MetadataQueryFails
        then (Some SQLAlchemyError,
              s\<lparr>pending := (pending s)\<lparr>machines := (machines (pending s))
                   [selected (machines (pending s)) wo :=
                      assign_fields (machines (pending s) ! selected (machines (pending s)) wo) wname wo]\<rparr>\<rparr>)
      else if flt = CommitFails
        then (Some SQLAlchemyError, s\<lparr>pending := assigned_db now wo wname (pending s)\<rparr>)
      else (None, commit (s\<lparr>pending := assigned_db now wo wname (pending s)\<rparr>)))"
proof (cases "free_machines (machines (pending s)) (wo_custom_location wo)")
  case Nil
  then show ?thesis
    using assms by (simp add: assign_work_order_def Let_def)
next
  case (Cons i0 rest)
  have "selected (machines (pending s)) wo \<in> set (free_machines (machines (pending s)) (wo_custom_location wo))"
    using Cons by (intro selected_is_free) simp
  then have lt: "selected (machines (pending s)) wo < length (machines (pending s))"
    by (simp add: free_machines_set)
  have sel: "select_machine (machines (pending s)) (wo_custom_pipe_size wo) i0 rest
               = selected (machines (pending s)) wo"
    using Cons by (simp add: selected_def)
  have id: "m_id (assign_fields m wname wo) = m_id m" for m
    by (simp add: assign_fields_def)
  show ?thesis
    using assms Cons lt
    by (simp add: assign_work_order_def Let_def sel assigned_db_def id)
qed

lemma assign_work_order_assignable:
  assumes "assignable wo (machines (pending s)) wname"
  shows "assign_work_order NoFault now wo s
           = (None, commit (s\<lparr>pending := assigned_db now wo wname (pending s)\<rparr>))"
proof -
  from assms obtain st where n: "wo_name wo = Some wname" "wo_status wo = Some st"
    and st: "st \<noteq> ''In Process''"
    by (auto simp: assignable_def)
  from assign_work_order_unfold [OF n, of NoFault now s] assms st
  show ?thesis by (simp add: assignable_def)
qed

lemma assign_work_order_skip:
  assumes "wo_name wo = Some wname" and "wo_status wo = Some st"
    and "\<not> assignable wo (machines (pending s)) wname"
  shows "assign_work_order NoFault now wo s = (None, s)"
proof -
  from assms(3) have "st = ''In Process'' \<or> truthy_str (wo_custom_machine_id wo)
      \<or> (\<exists>m \<in> set (machines (pending s)). m_erpnext_work_order_id m = Some wname)
      \<or> free_machines (machines (pending s)) (wo_custom_location wo) = []"
    using assms(1,2) unfolding assignable_def by blast
  then show ?thesis
    by (simp only: assign_work_order_unfold [OF assms(1,2)]) auto
qed

lemma assign_work_order_error:
  assumes "assign_work_order flt now wo s = (Some e, s')"
  shows "committed s' = committed s"
proof (cases "wo_name wo = None \<or> wo_status wo = None")
  case True
  from assign_work_order_KeyError [OF this, of flt now s] assms show ?thesis by simp
next
  case False
  then obtain wname st where "wo_name wo = Some wname" "wo_status wo = Some st" by auto
  from assign_work_order_unfold [OF this, of flt now s] assms
  show ?thesis by (auto split: if_splits)
qed

lemma assign_work_order_cases:
  assumes "assign_work_order flt now wo s = (None, s')"
  shows "s' = s \<or> (\<exists>wname. assignable wo (machines (pending s)) wname
            \<and> s' = commit (s\<lparr>pending := assigned_db now wo wname (pending s)\<rparr>))"
proof (cases "wo_name wo = None \<or> wo_status wo = None")
  case True
  from assign_work_order_KeyError [OF this, of flt now s] assms show ?thesis by simp
next
  case False
  then obtain wname st where n: "wo_name wo = Some wname" "wo_status wo = Some st" by auto
  show ?thesis
  proof (cases "assignable wo (machines (pending s)) wname")
    case True
    from assign_work_order_unfold [OF n, of flt now s] assms
    have "s' = s \<or> s' = commit (s\<lparr>pending := assigned_db now wo wname (pending s)\<rparr>)"
      by (auto split: if_splits)
    with True show ?thesis by blast
  next
    case False
    then have "st = ''In Process'' \<or> truthy_str (wo_custom_machine_id wo)
      \<or> (\<exists>m \<in> set (machines (pending s)). m_erpnext_work_order_id m = Some wname)
      \<or> free_machines (machines (pending s)) (wo_custom_location wo) = []"
      using n unfolding assignable_def by blast
    with assign_work_order_unfold [OF n, of flt now s] assms
    have "s' = s" by (auto split: if_splits)
    then show ?thesis by simp
  qed
qed

lemma assign_loop_append:
  "assign_loop now faults (pre @ wos) s =
     (case assign_loop now faults pre s of
        (Some e, s') \<Rightarrow> (Some e, s')
      | (None, s') \<Rightarrow> assign_loop now (drop (length pre) faults) wos s')"
proof (induction pre arbitrary: faults s)
  case Nil
  show ?case by simp
next
  case (Cons wo pre)
  have d: "drop (length pre) (tl faults) = drop (Suc (length pre)) faults"
    by (simp add: drop_Suc)
  show ?case
    by (simp add: Cons.IH d split: prod.splits option.splits)
qed

text \<open>A property of the committed rows that every assignment keeps is kept by the loop.\<close>

lemma assign_loop_invariant:
  assumes step: "\<And>d wo wname. Inv d \<Longrightarrow> wo \<in> W \<Longrightarrow> assignable wo (machines d) wname
                   \<Longrightarrow> Inv (assigned_db now wo wname d)"
    and "set wos \<subseteq> W" and "pending s = committed s" and "Inv (committed s)"
    and "assign_loop now faults wos s = (e, s')"
  shows "Inv (committed s') \<and> (e = None \<longrightarrow> pending s' = committed s')"
  using assms(2-)
proof (induction wos arbitrary: faults s)
  case Nil
  then show ?case by simp
next
  case (Cons wo wos)
  let ?f = "case faults of [] \<Rightarrow> NoFault | f # _ \<Rightarrow> f"
  obtain e1 s1 where r: "assign_work_order ?f now wo s = (e1, s1)"
    by (cases "assign_work_order ?f now wo s") auto
  show ?case
  proof (cases e1)
    case (Some err)
    then have "committed s1 = committed s" using r assign_work_order_error by blast
    moreover have "e = Some err" "s' = s1" using Cons.prems(4) r Some by auto
    ultimately show ?thesis using Cons.prems(3) by simp
  next
    case None
    from assign_work_order_cases [OF r [unfolded None]]
    have s1: "pending s1 = committed s1 \<and> Inv (committed s1)"
    proof
      assume "s1 = s"
      then show ?thesis using Cons.prems by simp
    next
      assume "\<exists>wname. assignable wo (machines (pending s)) wname
            \<and> s1 = commit (s\<lparr>pending := assigned_db now wo wname (pending s)\<rparr>)"
      then obtain wname where a: "assignable wo (machines (pending s)) wname"
        and s1: "s1 = commit (s\<lparr>pending := assigned_db now wo wname (pending s)\<rparr>)" by blast
      have "Inv (assigned_db now wo wname (committed s))"
        using step [of "committed s" wo wname] Cons.prems a by simp
      then show ?thesis using s1 Cons.prems(2) by (simp add: commit_def)
    qed
    have "assign_loop now (tl faults) wos s1 = (e, s')"
      using Cons.prems(4) r None by simp
    then show ?thesis
      using s1 Cons.prems(1) by (intro Cons.IH) auto
  qed
qed

lemma auto_assign_work_orders_invariant:
  assumes step: "\<And>d wo wname. Inv d \<Longrightarrow> wo \<in> set wos \<Longrightarrow> assignable wo (machines d) wname
                   \<Longrightarrow> Inv (assigned_db now wo wname d)"
    and "Inv d"
  shows "Inv (fst (auto_assign_work_orders now faults wos d))"
proof -
  obtain e s' where r: "assign_loop now faults wos \<lparr>committed = d, pending = d\<rparr> = (e, s')"
    by (cases "assign_loop now faults wos \<lparr>committed = d, pending = d\<rparr>") auto
  have "Inv (committed s')"
    using assign_loop_invariant [where Inv = Inv and W = "set wos", OF step _ _ _ r] assms(2)
    by simp
  then show ?thesis
    using r assms(2)
    by (cases e) (auto simp: auto_assign_work_orders_def rollback_def Let_def)
qed

section \<open>The lock invariant\<close>

lemma list_update_all:
  "\<forall>x \<in> set xs. P x \<Longrightarrow> P y \<Longrightarrow> \<forall>x \<in> set (xs[i := y]). P x"
  using set_update_subset_insert [of xs i y] by auto

lemma lock_ok_update_machine_status: "lock_ok (update_machine_status now m new_status)"
  by (simp add: lock_ok_def update_machine_status_def Let_def)

lemma lock_ok_assign_fields: "lock_ok (assign_fields m wname wo)"
  by (simp add: lock_ok_def assign_fields_def)

lemma lock_inv_update:
  assumes "lock_inv d" and "lock_ok y"
  shows "lock_inv (d\<lparr>machines := (machines d)[i := y]\<rparr>)"
proof -
  have "\<forall>x \<in> set ((machines d)[i := y]). lock_ok x"
    using assms by (intro list_update_all) (simp_all add: lock_inv_def)
  then show ?thesis by (simp add: lock_inv_def)
qed

lemma lock_inv_assigned_db:
  assumes "lock_inv d"
  shows "lock_inv (assigned_db now wo wname d)"
proof -
  have "lock_inv (d\<lparr>machines := (machines d)[selected (machines d) wo :=
                       assign_fields (machines d ! selected (machines d) wo) wname wo]\<rparr>)"
    using assms lock_ok_assign_fields by (rule lock_inv_update)
  then show ?thesis by (simp add: assigned_db_def lock_inv_def)
qed

lemma lock_inv_auto_assign:
  assumes "lock_inv d"
  shows "lock_inv (fst (auto_assign_work_orders now faults wos d))"
proof (rule auto_assign_work_orders_invariant [where Inv = lock_inv])
  show "lock_inv d" by (rule assms)
next
  fix d' wo wname
  assume "lock_inv d'"
  then show "lock_inv (assigned_db now wo wname d')" by (rule lock_inv_assigned_db)
qed

lemma lock_ok_meter_row:
  assumes "lock_ok m"
  shows "lock_ok (meter_row now m)"
proof (cases "m_status m = ''running''")
  case False
  then show ?thesis using assms by (simp add: meter_row_def)
next
  case True
  then have l: "m_is_locked m" using assms by (simp add: lock_ok_def)
  show ?thesis
    using True l
    by (simp add: meter_row_def meter_step_def lock_ok_def update_machine_status_def Let_def
        split: option.splits)
qed

lemma automatic_meter_counter_rows:
  "machines (automatic_meter_counter now d) = map (meter_row now) (machines d)
   \<or> automatic_meter_counter now d = d"
proof (cases "meter_loop now (machines d) (metadata d) (logs d) False")
  case (fields ms metas lg u)
  have "ms = map (meter_row now) (machines d)"
    using meter_loop_machines [of now "machines d" "metadata d" "logs d" False] fields by simp
  then show ?thesis using fields by (cases u) (simp_all add: automatic_meter_counter_def)
qed

lemma lock_inv_meter:
  assumes "lock_inv d"
  shows "lock_inv (automatic_meter_counter now d)"
proof -
  have "\<forall>m \<in> set (map (meter_row now) (machines d)). lock_ok m"
    using assms by (simp add: lock_inv_def lock_ok_meter_row)
  then show ?thesis
    using automatic_meter_counter_rows [of now d] assms by (auto simp: lock_inv_def)
qed

lemma lock_inv_start:
  assumes "lock_inv d"
  shows "lock_inv (fst (start_machine now location machine_id d))"
proof (cases "get_machine d location machine_id")
  case None
  then show ?thesis using assms by (simp add: start_machine_def)
next
  case (Some i)
  show ?thesis
    using assms Some lock_inv_update [OF assms lock_ok_update_machine_status]
    by (simp add: start_machine_def)
qed

lemma lock_inv_stop:
  assumes "lock_inv d"
  shows "lock_inv (fst (stop_machine now location machine_id d))"
proof (cases "get_machine d location machine_id")
  case None
  then show ?thesis using assms by (simp add: stop_machine_def)
next
  case (Some i)
  show ?thesis
    using Some lock_inv_update [OF assms lock_ok_update_machine_status]
    by (simp add: stop_machine_def)
qed

lemma lock_inv_pause:
  assumes "lock_inv d"
  shows "lock_inv (fst (pause_machine location machine_id d))"
proof (cases "get_machine d location machine_id")
  case None
  then show ?thesis using assms by (simp add: pause_machine_def)
next
  case (Some i)
  have "lock_ok ((machines d ! i)\<lparr>m_status := ''paused''\<rparr>)" by (simp add: lock_ok_def)
  from lock_inv_update [OF assms this] show ?thesis
    using Some by (simp add: pause_machine_def)
qed

lemma lock_inv_rename:
  assumes "lock_inv d"
  shows "lock_inv (fst (rename_machine location machine_id new_name d))"
proof (cases "get_machine d location machine_id")
  case None
  then show ?thesis using assms by (simp add: rename_machine_def)
next
  case (Some i)
  then have "i < length (machines d)"
    using first_index_Some unfolding get_machine_def by blast
  then have "lock_ok (machines d ! i)" using assms by (simp add: lock_inv_def)
  then have "lock_ok ((machines d ! i)\<lparr>m_name := new_name\<rparr>)" by (simp add: lock_ok_def)
  from lock_inv_update [OF assms this] show ?thesis
    using Some by (simp add: rename_machine_def)
qed

text \<open>
  Claim C7. \<^verbatim>\<open>update_machine_status\<close> always leaves a row whose lock agrees with its
  status: a transition to \<^verbatim>\<open>running\<close> sets \<^verbatim>\<open>is_locked\<close>, a transition to
  \<^verbatim>\<open>completed\<close> clears it. The invariant of the store, that every running row is
  locked and every completed row is not, is kept by every operation: the start, pause,
  stop and rename requests, the assignment pass (whatever store call fails in it) and
  one iteration of the meter counter.
\<close>

theorem lock_invariant:
  "lock_ok (update_machine_status now m new_status)
   \<and> m_is_locked (update_machine_status now m ''running'')
   \<and> \<not> m_is_locked (update_machine_status now m ''completed'')
   \<and> (lock_inv d \<longrightarrow>
         lock_inv (fst (start_machine now location machine_id d))
       \<and> lock_inv (fst (pause_machine location machine_id d))
       \<and> lock_inv (fst (stop_machine now location machine_id d))
       \<and> lock_inv (fst (rename_machine location machine_id new_name d))
       \<and> lock_inv (fst (auto_assign_work_orders now faults wos d))
       \<and> lock_inv (automatic_meter_counter now d))"
  using lock_ok_update_machine_status [of now m new_status]
    lock_inv_start [of d now location machine_id] lock_inv_pause [of d location machine_id]
    lock_inv_stop [of d now location machine_id]
    lock_inv_rename [of d location machine_id new_name]
    lock_inv_auto_assign [of d now faults wos] lock_inv_meter [of d now]
  by (simp add: update_machine_status_def Let_def)

section \<open>The quantity invariant\<close>






lemmas ex_defs = ex_free_def ex_wo_def ex_wo_over_def ex_db_free_def
lemmas assign_defs = auto_assign_work_orders_def assign_work_order_def free_machines_def
  is_free_def select_machine_def assign_fields_def upsert_metadata_def commit_def rollback_def
  truthy_str_def get_qty_def get_produced_qty_def Let_def

lemma ex_assign:
  "auto_assign_work_orders 5 [] [ex_wo] ex_db_free =
     (\<lparr>machines = [ex_free\<lparr>m_erpnext_work_order_id := Some ''WO1'', m_work_order := Some ''WO1'',
          m_pipe_size := Some ''20'', m_target_qty := 100, m_produced_qty := 0,
          m_status := ''paused'', m_is_locked := True\<rparr>],
       metadata = [\<lparr>meta_machine_id = 1, meta_work_order = Some ''WO1'',
          meta_erp_status = ''Assigned'', meta_last_synced = 5\<rparr>], logs = []\<rparr>, None)"
  by (simp add: ex_defs assign_defs)



theorem lock_invariant_witness:
  "lock_inv ex_db_free
   \<and> lock_inv (fst (auto_assign_work_orders 5 [] [ex_wo] ex_db_free))
   \<and> m_is_locked (machines (fst (auto_assign_work_orders 5 [] [ex_wo] ex_db_free)) ! 0)
   \<and> lock_inv (fst (start_machine 5 ''X'' 1 ex_db_free))
   \<and> lock_inv (automatic_meter_counter 5 ex_db_free)"
  using lock_invariant [of 5 ex_free "''running''" ex_db_free "''X''" 1 "''M''" "[]" "[ex_wo]"]
  by (simp add: ex_assign) (simp add: ex_defs lock_inv_def lock_ok_def)

section \<open>Selecting the machine\<close>

text \<open>
  Claim C6. For a work order that passes the three guards, the candidates are exactly
  the positions of the rows at the work order's location that are not locked and whose
  status is \<^verbatim>\<open>free\<close>, \<^verbatim>\<open>paused\<close> or \<^verbatim>\<open>stopped\<close>, in the order of the table. With
  no candidate nothing changes. Otherwise exactly one row is rewritten, a candidate:
  the first candidate whose \<^verbatim>\<open>pipe_size\<close> equals the work order's when there is one,
  and the first candidate when there is none.
\<close>

theorem candidate_selection:
  assumes "wo_name wo = Some wname" and "wo_status wo = Some st" and "st \<noteq> ''In Process''"
    and "\<not> truthy_str (wo_custom_machine_id wo)"
    and "\<forall>m \<in> set ms. m_erpnext_work_order_id m \<noteq> Some wname"
    and "ms = machines (pending s)"
    and "cands = free_machines ms (wo_custom_location wo)"
  shows "set cands = {i. i < length ms \<and> m_location (ms ! i) = wo_custom_location wo
                        \<and> \<not> m_is_locked (ms ! i)
                        \<and> m_status (ms ! i) \<in> {''free'', ''paused'', ''stopped''}}
       \<and> sorted_wrt (<) cands
       \<and> (cands = [] \<longrightarrow> assign_work_order NoFault now wo s = (None, s))
       \<and> (cands \<noteq> [] \<longrightarrow>
            (\<exists>i \<in> set cands.
               machines (pending (snd (assign_work_order NoFault now wo s)))
                 = ms[i := assign_fields (ms ! i) wname wo]
             \<and> ((\<exists>j \<in> set cands. m_pipe_size (ms ! j) = wo_custom_pipe_size wo)
                  \<longrightarrow> m_pipe_size (ms ! i) = wo_custom_pipe_size wo
                    \<and> (\<forall>j \<in> set cands. j < i \<longrightarrow> m_pipe_size (ms ! j) \<noteq> wo_custom_pipe_size wo))
             \<and> ((\<forall>j \<in> set cands. m_pipe_size (ms ! j) \<noteq> wo_custom_pipe_size wo)
                  \<longrightarrow> (\<forall>j \<in> set cands. i \<le> j))))"
proof -
  have c1: "set cands = {i. i < length ms \<and> m_location (ms ! i) = wo_custom_location wo
                        \<and> \<not> m_is_locked (ms ! i)
                        \<and> m_status (ms ! i) \<in> {''free'', ''paused'', ''stopped''}}"
    unfolding assms(7) free_machines_set by (auto simp: is_free_def)
  have c2: "sorted_wrt (<) cands" unfolding assms(7) by (rule free_machines_sorted)
  have c3: "assign_work_order NoFault now wo s = (None, s)" if "cands = []"
  proof -
    have "\<not> assignable wo (machines (pending s)) wname"
      using that assms(6,7) by (simp add: assignable_def)
    with assms(1,2) show ?thesis by (rule assign_work_order_skip)
  qed
  have c4: "\<exists>i \<in> set cands.
               machines (pending (snd (assign_work_order NoFault now wo s)))
                 = ms[i := assign_fields (ms ! i) wname wo]
             \<and> ((\<exists>j \<in> set cands. m_pipe_size (ms ! j) = wo_custom_pipe_size wo)
                  \<longrightarrow> m_pipe_size (ms ! i) = wo_custom_pipe_size wo
                    \<and> (\<forall>j \<in> set cands. j < i \<longrightarrow> m_pipe_size (ms ! j) \<noteq> wo_custom_pipe_size wo))
             \<and> ((\<forall>j \<in> set cands. m_pipe_size (ms ! j) \<noteq> wo_custom_pipe_size wo)
                  \<longrightarrow> (\<forall>j \<in> set cands. i \<le> j))"
    if ne: "cands \<noteq> []"
  proof -
    obtain i0 rest where c: "cands = i0 # rest" using ne by (cases cands) auto
    let ?i = "select_machine ms (wo_custom_pipe_size wo) i0 rest"
    have sel: "selected ms wo = ?i"
      using c assms(7) by (simp add: selected_def)
    have "assignable wo (machines (pending s)) wname"
      using assms ne by (auto simp: assignable_def)
    from assign_work_order_assignable [OF this, of now]
    have upd: "machines (pending (snd (assign_work_order NoFault now wo s)))
                 = ms[?i := assign_fields (ms ! ?i) wname wo]"
      using assms(6) sel by (simp add: commit_def assigned_db_def)
    have "sorted_wrt (<) (i0 # rest)" using c2 c by simp
    note spec = select_machine_spec [OF this, of ms "wo_custom_pipe_size wo"]
    have "?i \<in> set cands" using spec c by blast
    moreover have "(\<exists>j \<in> set cands. m_pipe_size (ms ! j) = wo_custom_pipe_size wo)
                  \<longrightarrow> m_pipe_size (ms ! ?i) = wo_custom_pipe_size wo
                    \<and> (\<forall>j \<in> set cands. j < ?i \<longrightarrow> m_pipe_size (ms ! j) \<noteq> wo_custom_pipe_size wo)"
      using spec unfolding c by blast
    moreover have "(\<forall>j \<in> set cands. m_pipe_size (ms ! j) \<noteq> wo_custom_pipe_size wo)
                  \<longrightarrow> (\<forall>j \<in> set cands. ?i \<le> j)"
      using spec unfolding c by metis
    ultimately show ?thesis using upd by blast
  qed
  from c1 c2 c3 c4 show ?thesis by blast
qed

lemma ex_sizes_free: "free_machines ex_sizes (Some ''X'') = [0, 1, 2]"
  by (simp add: free_machines_def is_free_def ex_sizes_def ex_free_def upt_rec)

theorem candidate_selection_witness:
  "wo_name ex_wo_B = Some ''WO1'' \<and> wo_status ex_wo_B = Some ''Not Started''
   \<and> free_machines ex_sizes (wo_custom_location ex_wo_B) = [0, 1, 2]
   \<and> machines (pending (snd (assign_work_order NoFault 5 ex_wo_B ex_session_sizes)))
       = ex_sizes[1 := assign_fields (ex_sizes ! 1) ''WO1'' ex_wo_B]"
proof -
  have f: "free_machines ex_sizes (wo_custom_location ex_wo_B) = [0, 1, 2]"
    using ex_sizes_free by (simp add: ex_wo_B_def ex_wo_def)
  have h: "\<forall>m \<in> set ex_sizes. m_erpnext_work_order_id m \<noteq> Some ''WO1''"
    by (simp add: ex_sizes_def ex_free_def)
  have t: "\<not> truthy_str (wo_custom_machine_id ex_wo_B)"
    by (simp add: ex_wo_B_def ex_wo_def truthy_str_def)
  have n: "wo_name ex_wo_B = Some ''WO1''" "wo_status ex_wo_B = Some ''Not Started''"
    "''Not Started'' \<noteq> ''In Process''"
    by (simp_all add: ex_wo_B_def ex_wo_def)
  have p: "ex_sizes = machines (pending ex_session_sizes)" by (simp add: ex_session_sizes_def)
  note th = candidate_selection [OF n t h p f [symmetric], of 5]
  have "[0, 1, 2::nat] \<noteq> []" by simp
  with th obtain i where i: "i \<in> set [0, 1, 2::nat]"
    "machines (pending (snd (assign_work_order NoFault 5 ex_wo_B ex_session_sizes)))
       = ex_sizes[i := assign_fields (ex_sizes ! i) ''WO1'' ex_wo_B]"
    "(\<exists>j \<in> set [0, 1, 2::nat]. m_pipe_size (ex_sizes ! j) = wo_custom_pipe_size ex_wo_B)
       \<longrightarrow> m_pipe_size (ex_sizes ! i) = wo_custom_pipe_size ex_wo_B
         \<and> (\<forall>j \<in> set [0, 1, 2::nat]. j < i \<longrightarrow> m_pipe_size (ex_sizes ! j) \<noteq> wo_custom_pipe_size ex_wo_B)"
    by blast
  have pw: "wo_custom_pipe_size ex_wo_B = Some ''B''" by (simp add: ex_wo_B_def)
  have p0: "m_pipe_size (ex_sizes ! 0) = Some ''A''" by (simp add: ex_sizes_def)
  have p1: "m_pipe_size (ex_sizes ! 1) = Some ''B''" by (simp add: ex_sizes_def)
  have "1 \<in> set [0, 1, 2::nat]" by simp
  with p1 pw have "\<exists>j \<in> set [0, 1, 2::nat]. m_pipe_size (ex_sizes ! j) = wo_custom_pipe_size ex_wo_B"
    by metis
  with i(3) have a: "m_pipe_size (ex_sizes ! i) = Some ''B''"
    and b: "\<forall>j \<in> set [0, 1, 2::nat]. j < i \<longrightarrow> m_pipe_size (ex_sizes ! j) \<noteq> Some ''B''"
    unfolding pw by blast+
  have "i = 0 \<or> i = 1 \<or> i = 2" using i(1) by simp
  then have "i = 1"
  proof (elim disjE)
    assume "i = 0"
    with a p0 show ?thesis by simp
  next
    assume "i = 1"
    then show ?thesis .
  next
    assume "i = 2"
    with b have "m_pipe_size (ex_sizes ! 1) \<noteq> Some ''B''" by simp
    with p1 show ?thesis by simp
  qed
  with i(2) n f show ?thesis by simp
qed

section \<open>Failures in the assignment pass\<close>

lemma assign_loop_clean:
  assumes "pending s = committed s" and "assign_loop now faults wos s = (None, s')"
  shows "pending s' = committed s'"
  using assign_loop_invariant [where Inv = "\<lambda>_. True" and W = "set wos", OF _ _ assms(1) _ assms(2)]
  by simp

lemma erpnext_sync_loop_length: "length (snd (erpnext_sync_loop inputs d)) = length inputs"
proof (induction inputs arbitrary: d)
  case Nil
  show ?case by simp
next
  case (Cons a inputs)
  obtain now faults wos where a: "a = (now, faults, wos)" by (cases a) auto
  obtain d' caught where r: "auto_assign_work_orders now faults wos d = (d', caught)"
    by (cases "auto_assign_work_orders now faults wos d") auto
  show ?case
    using Cons.IH [of d'] a r by (auto split: prod.splits)
qed

text \<open>
  Claim C9. When the work orders before one have been processed without an exception
  and the processing of that one raises (a failing store call, or a missing key), all
  changes made before it are committed already, the pass returns the rows as they were
  committed after the earlier work orders (the result of the pass over them alone), so
  only the changes of the failing work order are rolled back, and the exception is
  caught: the periodic loop runs its next iterations from these rows.
\<close>

theorem partial_progress_survives:
  assumes "assign_loop now faults pre \<lparr>committed = d, pending = d\<rparr> = (None, s1)"
    and "fst (assign_work_order (fault_at faults (length pre)) now wo s1) = Some e"
  shows "pending s1 = committed s1
       \<and> fst (auto_assign_work_orders now faults pre d) = committed s1
       \<and> auto_assign_work_orders now faults (pre @ wo # rest) d = (committed s1, Some e)
       \<and> erpnext_sync_loop ((now, faults, pre @ wo # rest) # later) d
           = (fst (erpnext_sync_loop later (committed s1)),
              Some e # snd (erpnext_sync_loop later (committed s1)))
       \<and> length (snd (erpnext_sync_loop ((now, faults, pre @ wo # rest) # later) d))
           = Suc (length later)"
proof -
  let ?s0 = "\<lparr>committed = d, pending = d\<rparr>"
  have clean: "pending s1 = committed s1"
    using assign_loop_clean [OF _ assms(1)] by simp
  have pre: "fst (auto_assign_work_orders now faults pre d) = committed s1"
  proof (cases pre)
    case Nil
    with assms(1) have "s1 = ?s0" by simp
    then show ?thesis using Nil by (simp add: auto_assign_work_orders_def)
  next
    case (Cons a list)
    then show ?thesis using assms(1) by (simp add: auto_assign_work_orders_def)
  qed
  obtain s2 where step: "assign_work_order (fault_at faults (length pre)) now wo s1 = (Some e, s2)"
    using assms(2) by (cases "assign_work_order (fault_at faults (length pre)) now wo s1") auto
  have c2: "committed s2 = committed s1"
    using step by (rule assign_work_order_error)
  have "assign_loop now faults (pre @ wo # rest) ?s0
          = assign_loop now (drop (length pre) faults) (wo # rest) s1"
    using assms(1) by (simp add: assign_loop_append)
  also have "\<dots> = (Some e, s2)"
    using step by (simp add: fault_at_def)
  finally have "assign_loop now faults (pre @ wo # rest) ?s0 = (Some e, s2)" .
  then have pass: "auto_assign_work_orders now faults (pre @ wo # rest) d = (committed s1, Some e)"
    using c2 by (simp add: auto_assign_work_orders_def rollback_def)
  have loop: "erpnext_sync_loop ((now, faults, pre @ wo # rest) # later) d
           = (fst (erpnext_sync_loop later (committed s1)),
              Some e # snd (erpnext_sync_loop later (committed s1)))"
    using pass by (simp split: prod.splits)
  from clean pre pass loop show ?thesis
    by (simp add: erpnext_sync_loop_length)
qed

lemma ex_first_assigned:
  "assign_loop 5 [NoFault, CommitFails] [ex_wo] \<lparr>committed = ex_db_two, pending = ex_db_two\<rparr>
     = (None, \<lparr>committed = ex_db_two_assigned, pending = ex_db_two_assigned\<rparr>)"
  by (simp add: ex_db_two_def ex_db_two_assigned_def ex_free2_def ex_defs assign_defs)

lemma ex_second_fails:
  "fst (assign_work_order (fault_at [NoFault, CommitFails] (length [ex_wo])) 5 ex_wo2
      \<lparr>committed = ex_db_two_assigned, pending = ex_db_two_assigned\<rparr>) = Some SQLAlchemyError"
  by (simp add: ex_db_two_assigned_def ex_free2_def ex_wo2_def ex_defs assign_defs fault_at_def)

theorem partial_progress_survives_witness:
  "assign_loop 5 [NoFault, CommitFails] [ex_wo] \<lparr>committed = ex_db_two, pending = ex_db_two\<rparr>
     = (None, \<lparr>committed = ex_db_two_assigned, pending = ex_db_two_assigned\<rparr>)
   \<and> fst (assign_work_order (fault_at [NoFault, CommitFails] (length [ex_wo])) 5 ex_wo2
      \<lparr>committed = ex_db_two_assigned, pending = ex_db_two_assigned\<rparr>) = Some SQLAlchemyError
   \<and> auto_assign_work_orders 5 [NoFault, CommitFails] [ex_wo, ex_wo2] ex_db_two
       = (ex_db_two_assigned, Some SQLAlchemyError)
   \<and> m_work_order (machines ex_db_two_assigned ! 0) = Some ''WO1''
   \<and> m_work_order (machines ex_db_two_assigned ! 1) = None"
  using partial_progress_survives [OF ex_first_assigned ex_second_fails, of "[]" "[]"]
    ex_first_assigned ex_second_fails
  by (simp add: ex_db_two_assigned_def assign_fields_def ex_free2_def ex_free_def)

section \<open>Running the assignment pass twice\<close>

lemma is_free_eligible: "is_free location m \<longleftrightarrow> m_location m = location \<and> eligible m"
  by (simp add: is_free_def eligible_def)

lemma grows_refl: "grows ms ms"
  by (simp add: grows_def)

lemma grows_trans:
  assumes "grows a b" and "grows b c"
  shows "grows a c"
  unfolding grows_def
proof (intro conjI allI impI)
  show "length c = length a" using assms by (simp add: grows_def)
next
  fix i assume i: "i < length a"
  then have ib: "i < length b" using assms(1) by (simp add: grows_def)
  from assms(1) i have ab: "b ! i = a ! i \<or> (eligible (a ! i) \<and> \<not> eligible (b ! i))"
    by (simp add: grows_def)
  from assms(2) ib have bc: "c ! i = b ! i \<or> (eligible (b ! i) \<and> \<not> eligible (c ! i))"
    by (simp add: grows_def)
  from ab bc show "c ! i = a ! i \<or> (eligible (a ! i) \<and> \<not> eligible (c ! i))"
    by metis
qed

lemma selected_eligible:
  assumes "free_machines ms (wo_custom_location wo) \<noteq> []"
  shows "selected ms wo < length ms \<and> eligible (ms ! selected ms wo)"
  using selected_is_free [OF assms]
  by (simp add: free_machines_set is_free_eligible)

lemma not_eligible_assign_fields: "\<not> eligible (assign_fields m wname wo)"
  by (simp add: eligible_def assign_fields_def)

lemma grows_assigned_db:
  assumes "assignable wo (machines d) wname"
  shows "grows (machines d) (machines (assigned_db now wo wname d))"
proof -
  have ne: "free_machines (machines d) (wo_custom_location wo) \<noteq> []"
    using assms by (simp add: assignable_def)
  note sel = selected_eligible [OF ne]
  show ?thesis
    unfolding grows_def assigned_db_def
    using sel by (auto simp: nth_list_update not_eligible_assign_fields)
qed

lemma assigned_db_existing:
  assumes "assignable wo (machines d) wname"
  shows "\<exists>m \<in> set (machines (assigned_db now wo wname d)). m_erpnext_work_order_id m = Some wname"
proof -
  have ne: "free_machines (machines d) (wo_custom_location wo) \<noteq> []"
    using assms by (simp add: assignable_def)
  let ?i = "selected (machines d) wo"
  have lt: "?i < length (machines d)" using selected_eligible [OF ne] by simp
  have "machines (assigned_db now wo wname d) ! ?i = assign_fields (machines d ! ?i) wname wo"
    using lt by (simp add: assigned_db_def)
  moreover have "?i < length (machines (assigned_db now wo wname d))"
    using lt by (simp add: assigned_db_def)
  moreover have "m_erpnext_work_order_id (assign_fields (machines d ! ?i) wname wo) = Some wname"
    by (simp add: assign_fields_def)
  ultimately show ?thesis
    using nth_mem by fastforce
qed

lemma not_assignable_stable:
  assumes carrier: "\<forall>m \<in> set ms. eligible m \<longrightarrow> m_erpnext_work_order_id m \<noteq> Some wname"
    and na: "\<not> assignable wo ms wname"
    and g: "grows ms ms'"
  shows "\<not> assignable wo ms' wname"
proof
  assume a: "assignable wo ms' wname"
  have len: "length ms' = length ms" using g by (simp add: grows_def)
  have row: "ms' ! i = ms ! i \<or> (eligible (ms ! i) \<and> \<not> eligible (ms' ! i))" if "i < length ms" for i
    using g that by (simp add: grows_def)
  have no_existing: "\<forall>m \<in> set ms. m_erpnext_work_order_id m \<noteq> Some wname"
  proof
    fix m assume "m \<in> set ms"
    then obtain i where i: "i < length ms" "ms ! i = m" by (auto simp: in_set_conv_nth)
    show "m_erpnext_work_order_id m \<noteq> Some wname"
    proof (cases "eligible m")
      case True
      with carrier \<open>m \<in> set ms\<close> show ?thesis by blast
    next
      case False
      with row [OF i(1)] i(2) have "ms' ! i = m" by simp
      then have "m \<in> set ms'" using i(1) len nth_mem by metis
      with a show ?thesis by (simp add: assignable_def)
    qed
  qed
  from a obtain j where "j \<in> set (free_machines ms' (wo_custom_location wo))"
    by (cases "free_machines ms' (wo_custom_location wo)") (auto simp: assignable_def)
  then have j: "j < length ms'" "m_location (ms' ! j) = wo_custom_location wo" "eligible (ms' ! j)"
    by (simp_all add: free_machines_set is_free_eligible)
  with row [of j] len have "ms' ! j = ms ! j" by auto
  with j len have "j \<in> set (free_machines ms (wo_custom_location wo))"
    by (simp add: free_machines_set is_free_eligible)
  then have "free_machines ms (wo_custom_location wo) \<noteq> []" by auto
  with a no_existing have "assignable wo ms wname" by (simp add: assignable_def)
  with na show False by simp
qed

lemma no_eligible_carrier_grows:
  assumes "no_eligible_carrier wos ms" and "grows ms ms'"
  shows "no_eligible_carrier wos ms'"
  unfolding no_eligible_carrier_def
proof (intro ballI impI)
  fix m wo assume m: "m \<in> set ms'" and wo: "wo \<in> set wos" and e: "eligible m"
  have len: "length ms' = length ms" using assms(2) by (simp add: grows_def)
  from m obtain i where i: "i < length ms'" "ms' ! i = m" by (auto simp: in_set_conv_nth)
  have "\<forall>k < length ms. ms' ! k = ms ! k \<or> (eligible (ms ! k) \<and> \<not> eligible (ms' ! k))"
    using assms(2) by (simp add: grows_def)
  then have "ms' ! i = ms ! i \<or> (eligible (ms ! i) \<and> \<not> eligible (ms' ! i))"
    using i(1) len by simp
  with e i have "ms ! i = m" by auto
  then have "m \<in> set ms" using i(1) len nth_mem by metis
  with assms(1) wo e show "wo_name wo = None \<or> m_erpnext_work_order_id m \<noteq> wo_name wo"
    by (simp add: no_eligible_carrier_def)
qed

lemma no_eligible_carrier_name:
  assumes "no_eligible_carrier wos ms" and "wo \<in> set wos" and "wo_name wo = Some wname"
  shows "\<forall>m \<in> set ms. eligible m \<longrightarrow> m_erpnext_work_order_id m \<noteq> Some wname"
proof (intro ballI impI)
  fix m assume "m \<in> set ms" "eligible m"
  with assms(1,2) have "wo_name wo = None \<or> m_erpnext_work_order_id m \<noteq> wo_name wo"
    unfolding no_eligible_carrier_def by blast
  with assms(3) show "m_erpnext_work_order_id m \<noteq> Some wname" by simp
qed

lemma assignable_name: "assignable wo ms wname \<Longrightarrow> wo_name wo = Some wname"
  by (simp add: assignable_def)

lemma assign_work_order_settled:
  assumes "\<forall>wname. \<not> assignable wo (machines (pending s)) wname"
  shows "assign_work_order NoFault now wo s
           = (if wo_name wo = None \<or> wo_status wo = None then Some KeyError else None, s)"
proof (cases "wo_name wo = None \<or> wo_status wo = None")
  case True
  then show ?thesis using assign_work_order_KeyError [OF True] by simp
next
  case False
  then obtain wname st where n: "wo_name wo = Some wname" "wo_status wo = Some st" by auto
  from assign_work_order_skip [OF n] assms False show ?thesis by simp
qed

text \<open>A pass without faults leaves a clean session, and the machine table only grows.\<close>

lemma assign_loop_grows:
  assumes "pending s = committed s" and "assign_loop now [] wos s = (e, s')"
  shows "pending s' = committed s' \<and> grows (machines (pending s)) (machines (pending s'))"
  using assms
proof (induction wos arbitrary: s)
  case Nil
  then show ?case by (simp add: grows_refl)
next
  case (Cons wo wos)
  show ?case
  proof (cases "\<exists>wname. assignable wo (machines (pending s)) wname")
    case True
    then obtain wname where a: "assignable wo (machines (pending s)) wname" by blast
    let ?s1 = "commit (s\<lparr>pending := assigned_db now wo wname (pending s)\<rparr>)"
    have step: "assign_work_order NoFault now wo s = (None, ?s1)"
      using a by (rule assign_work_order_assignable)
    then have rest: "assign_loop now [] wos ?s1 = (e, s')"
      using Cons.prems(2) by simp
    have clean1: "pending ?s1 = committed ?s1" by (simp add: commit_def)
    have g1: "grows (machines (pending s)) (machines (pending ?s1))"
      using grows_assigned_db [OF a, of now] by (simp add: commit_def)
    from Cons.IH [OF clean1 rest] g1 show ?thesis
      using grows_trans by blast
  next
    case False
    then have step: "assign_work_order NoFault now wo s
           = (if wo_name wo = None \<or> wo_status wo = None then Some KeyError else None, s)"
      by (intro assign_work_order_settled) simp
    show ?thesis
    proof (cases "wo_name wo = None \<or> wo_status wo = None")
      case True
      with step Cons.prems(2) have "s' = s" by simp
      then show ?thesis using Cons.prems(1) by (simp add: grows_refl)
    next
      case F: False
      then obtain wname st where "wo_name wo = Some wname" "wo_status wo = Some st" by auto
      then have "assign_work_order NoFault now wo s = (None, s)"
        using False by (intro assign_work_order_skip) auto
      with Cons.prems(2) have "assign_loop now [] wos s = (e, s')" by simp
      from Cons.IH [OF Cons.prems(1) this] show ?thesis .
    qed
  qed
qed

text \<open>
  Running the work orders again, on the rows the first pass left or on rows grown from
  them, changes nothing and ends the same way.
\<close>

lemma assign_loop_again:
  assumes "pending s = committed s"
    and "no_eligible_carrier W (machines (pending s))"
    and "set wos \<subseteq> set W"
    and "assign_loop now1 [] wos s = (e, s')"
    and "grows (machines (pending s')) (machines (pending t))"
  shows "assign_loop now2 [] wos t = (e, t)"
  using assms
proof (induction wos arbitrary: s)
  case Nil
  then show ?case by simp
next
  case (Cons wo wos)
  have woW: "wo \<in> set W" and sub: "set wos \<subseteq> set W" using Cons.prems(3) by auto
  show ?case
  proof (cases "\<exists>wname. assignable wo (machines (pending s)) wname")
    case True
    then obtain wname where a: "assignable wo (machines (pending s)) wname" by blast
    have name: "wo_name wo = Some wname" using a by (rule assignable_name)
    let ?s1 = "commit (s\<lparr>pending := assigned_db now1 wo wname (pending s)\<rparr>)"
    have step: "assign_work_order NoFault now1 wo s = (None, ?s1)"
      using a by (rule assign_work_order_assignable)
    then have rest: "assign_loop now1 [] wos ?s1 = (e, s')"
      using Cons.prems(4) by simp
    have clean1: "pending ?s1 = committed ?s1" by (simp add: commit_def)
    have p1: "machines (pending ?s1) = machines (assigned_db now1 wo wname (pending s))"
      by (simp add: commit_def)
    have g1: "grows (machines (pending s)) (machines (pending ?s1))"
      unfolding p1 using a by (rule grows_assigned_db)
    have carrier1: "no_eligible_carrier W (machines (pending ?s1))"
      using Cons.prems(2) g1 by (rule no_eligible_carrier_grows)
    have g2: "grows (machines (pending ?s1)) (machines (pending s'))"
      using assign_loop_grows [OF clean1 rest] by (rule conjunct2)
    have g3: "grows (machines (pending ?s1)) (machines (pending t))"
      using g2 Cons.prems(5) by (rule grows_trans)
    have "\<not> assignable wo (machines (pending ?s1)) wname"
      using assigned_db_existing [OF a, of now1] unfolding p1 by (auto simp: assignable_def)
    with no_eligible_carrier_name [OF carrier1 woW name]
    have "\<not> assignable wo (machines (pending t)) wname"
      using g3 by (rule not_assignable_stable)
    moreover obtain st where "wo_status wo = Some st" using a by (auto simp: assignable_def)
    ultimately have step2: "assign_work_order NoFault now2 wo t = (None, t)"
      using name by (intro assign_work_order_skip) auto
    have "assign_loop now2 [] wos t = (e, t)"
      using clean1 carrier1 sub rest Cons.prems(5) by (rule Cons.IH)
    with step2 show ?thesis by simp
  next
    case False
    then have na: "\<forall>wname. \<not> assignable wo (machines (pending s)) wname" by simp
    then have step: "assign_work_order NoFault now1 wo s
           = (if wo_name wo = None \<or> wo_status wo = None then Some KeyError else None, s)"
      by (rule assign_work_order_settled)
    show ?thesis
    proof (cases "wo_name wo = None \<or> wo_status wo = None")
      case True
      with step Cons.prems(4) have e: "e = Some KeyError" by auto
      have "assign_work_order NoFault now2 wo t = (Some KeyError, t)"
        using True by (rule assign_work_order_KeyError)
      with e show ?thesis by simp
    next
      case False
      then obtain wname st where name: "wo_name wo = Some wname" and st: "wo_status wo = Some st"
        by auto
      have "assign_work_order NoFault now1 wo s = (None, s)"
        using name st na by (intro assign_work_order_skip) auto
      with Cons.prems(4) have rest: "assign_loop now1 [] wos s = (e, s')" by simp
      have g2: "grows (machines (pending s)) (machines (pending s'))"
        using assign_loop_grows [OF Cons.prems(1) rest] by (rule conjunct2)
      have g3: "grows (machines (pending s)) (machines (pending t))"
        using g2 Cons.prems(5) by (rule grows_trans)
      have "\<not> assignable wo (machines (pending s)) wname" using na by simp
      with no_eligible_carrier_name [OF Cons.prems(2) woW name]
      have "\<not> assignable wo (machines (pending t)) wname"
        using g3 by (rule not_assignable_stable)
      with name st have step2: "assign_work_order NoFault now2 wo t = (None, t)"
        by (rule assign_work_order_skip)
      have "assign_loop now2 [] wos t = (e, t)"
        using Cons.prems(1,2) sub rest Cons.prems(5) by (rule Cons.IH)
      with step2 show ?thesis by simp
    qed
  qed
qed

text \<open>
  Claim C2, as amended. The guard against a second assignment looks for a machine row
  that carries the work order's id, not for an assignment record. When no row that the
  query for free machines can still return (unlocked, status \<^verbatim>\<open>free\<close>, \<^verbatim>\<open>paused\<close> or
  \<^verbatim>\<open>stopped\<close>) carries the id of a work order of the batch, a second pass over the same
  work orders returns the rows of the first pass unchanged (no machine row, no
  assignment record and no log differs) and ends the same way.
\<close>

theorem assignment_idempotent:
  assumes "no_eligible_carrier wos (machines d)"
  shows "auto_assign_work_orders now2 [] wos (fst (auto_assign_work_orders now1 [] wos d))
           = auto_assign_work_orders now1 [] wos d"
proof (cases "wos = []")
  case True
  then show ?thesis by (simp add: auto_assign_work_orders_def)
next
  case False
  let ?s0 = "\<lparr>committed = d, pending = d\<rparr>"
  obtain e s' where r: "assign_loop now1 [] wos ?s0 = (e, s')"
    by (cases "assign_loop now1 [] wos ?s0") auto
  have clean: "pending s' = committed s'"
    using assign_loop_grows [OF _ r] by simp
  have first: "auto_assign_work_orders now1 [] wos d = (committed s', e)"
    using False r by (cases e) (simp_all add: auto_assign_work_orders_def rollback_def)
  let ?t = "\<lparr>committed = committed s', pending = committed s'\<rparr>"
  have g: "grows (machines (pending s')) (machines (pending ?t))"
    using clean by (simp add: grows_refl)
  have c0: "pending ?s0 = committed ?s0" by simp
  have n0: "no_eligible_carrier wos (machines (pending ?s0))" using assms by simp
  have again: "assign_loop now2 [] wos ?t = (e, ?t)"
    using c0 n0 subset_refl r g by (rule assign_loop_again)
  have "auto_assign_work_orders now2 [] wos (committed s') = (committed s', e)"
    using False again by (cases e) (simp_all add: auto_assign_work_orders_def rollback_def)
  with first show ?thesis by simp
qed

lemma ex_carrier_first:
  "auto_assign_work_orders 5 [] [ex_wo, ex_wo2] ex_db_carrier =
     (\<lparr>machines = [assign_fields ex_done_paused ''WO2'' ex_wo2, ex_free2],
       metadata = [\<lparr>meta_machine_id = 1, meta_work_order = Some ''WO2'',
                    meta_erp_status = ''Assigned'', meta_last_synced = 5\<rparr>],
       logs = []\<rparr>, None)"
  by (simp add: ex_db_carrier_def ex_done_paused_def ex_free2_def ex_wo2_def ex_defs assign_defs)

lemma ex_carrier_second:
  "auto_assign_work_orders 15 [] [ex_wo, ex_wo2]
     \<lparr>machines = [assign_fields ex_done_paused ''WO2'' ex_wo2, ex_free2],
       metadata = [\<lparr>meta_machine_id = 1, meta_work_order = Some ''WO2'',
                    meta_erp_status = ''Assigned'', meta_last_synced = 5\<rparr>],
       logs = []\<rparr> =
     (\<lparr>machines = [assign_fields ex_done_paused ''WO2'' ex_wo2, assign_fields ex_free2 ''WO1'' ex_wo],
       metadata = [\<lparr>meta_machine_id = 1, meta_work_order = Some ''WO2'',
                    meta_erp_status = ''Assigned'', meta_last_synced = 5\<rparr>,
                   \<lparr>meta_machine_id = 2, meta_work_order = Some ''WO1'',
                    meta_erp_status = ''Assigned'', meta_last_synced = 15\<rparr>],
       logs = []\<rparr>, None)"
  by (simp add: ex_db_carrier_def ex_done_paused_def ex_free2_def ex_wo2_def ex_defs assign_defs)

text \<open>
  Claim C2 as stated fails. Machine 1 is paused and unlocked and still carries WO1, so
  the first pass skips WO1 and gives WO2 to machine 1, overwriting the id; machine 2
  keeps no work order and there is one assignment record. The second pass finds no row
  carrying WO1 and assigns it to machine 2, with a second assignment record.
\<close>

theorem assignment_idempotent_counterexample:
  "m_work_order (machines (fst (auto_assign_work_orders 5 [] [ex_wo, ex_wo2] ex_db_carrier)) ! 1) = None
   \<and> length (metadata (fst (auto_assign_work_orders 5 [] [ex_wo, ex_wo2] ex_db_carrier))) = 1
   \<and> m_work_order (machines (fst (auto_assign_work_orders 15 [] [ex_wo, ex_wo2]
         (fst (auto_assign_work_orders 5 [] [ex_wo, ex_wo2] ex_db_carrier)))) ! 1) = Some ''WO1''
   \<and> length (metadata (fst (auto_assign_work_orders 15 [] [ex_wo, ex_wo2]
         (fst (auto_assign_work_orders 5 [] [ex_wo, ex_wo2] ex_db_carrier))))) = 2"
  by (simp add: ex_carrier_first ex_carrier_second)
    (simp add: ex_free2_def ex_free_def assign_fields_def)

lemma ex_two_carrier: "no_eligible_carrier [ex_wo, ex_wo2] (machines ex_db_two)"
  by (simp add: no_eligible_carrier_def ex_db_two_def ex_free2_def ex_wo2_def ex_defs)

theorem assignment_idempotent_witness:
  "no_eligible_carrier [ex_wo, ex_wo2] (machines ex_db_two)
   \<and> m_work_order (machines (fst (auto_assign_work_orders 5 [] [ex_wo, ex_wo2] ex_db_two)) ! 0)
       = Some ''WO1''
   \<and> m_work_order (machines (fst (auto_assign_work_orders 5 [] [ex_wo, ex_wo2] ex_db_two)) ! 1)
       = Some ''WO2''
   \<and> auto_assign_work_orders 15 [] [ex_wo, ex_wo2]
         (fst (auto_assign_work_orders 5 [] [ex_wo, ex_wo2] ex_db_two))
       = auto_assign_work_orders 5 [] [ex_wo, ex_wo2] ex_db_two"
proof -
  have "auto_assign_work_orders 5 [] [ex_wo, ex_wo2] ex_db_two =
     (\<lparr>machines = [assign_fields ex_free ''WO1'' ex_wo, assign_fields ex_free2 ''WO2'' ex_wo2],
       metadata = [\<lparr>meta_machine_id = 1, meta_work_order = Some ''WO1'',
                    meta_erp_status = ''Assigned'', meta_last_synced = 5\<rparr>,
                   \<lparr>meta_machine_id = 2, meta_work_order = Some ''WO2'',
                    meta_erp_status = ''Assigned'', meta_last_synced = 5\<rparr>],
       logs = []\<rparr>, None)"
    by (simp add: ex_db_two_def ex_free2_def ex_wo2_def ex_defs assign_defs)
  then have "m_work_order (machines (fst (auto_assign_work_orders 5 [] [ex_wo, ex_wo2] ex_db_two)) ! 0)
       = Some ''WO1''"
    "m_work_order (machines (fst (auto_assign_work_orders 5 [] [ex_wo, ex_wo2] ex_db_two)) ! 1)
       = Some ''WO2''"
    by (simp_all add: assign_fields_def)
  then show ?thesis
    using assignment_idempotent [OF ex_two_carrier, of 15 5] ex_two_carrier by simp
qed

section \<open>The alert loop\<close>












lemmas alert_defs = production_alerts_def alert_step_def percent_of_def level_of_def
  last_level_of_def truthy_str_def ex_db_at_def ex_at_def ex_running_def Let_def

text \<open>
  The readings 70, 80, 95, 92, 99, 100 of one running machine: alerts at 80, 95 and 100.
\<close>

lemma alert_example_sequence:
  "production_alerts_run
     [ex_db_at 70, ex_db_at 80, ex_db_at 95, ex_db_at 92, ex_db_at 99, ex_db_at 100] Map.empty
   = [[], [\<lparr>alert_machine_id = 1, alert_level = 1\<rparr>], [\<lparr>alert_machine_id = 1, alert_level = 2\<rparr>],
      [], [], [\<lparr>alert_machine_id = 1, alert_level = 3\<rparr>]]"
  by (simp add: alert_defs)




section \<open>One machine for each work order\<close>

lemma work_orders_uniqueI:
  assumes "machines d = ms"
    and "\<And>m. m \<in> set ms \<Longrightarrow> m_work_order m = m_erpnext_work_order_id m"
    and "\<And>i j. i < length ms \<Longrightarrow> j < length ms \<Longrightarrow> i \<noteq> j
           \<Longrightarrow> m_work_order (ms ! i) = None \<or> m_work_order (ms ! i) \<noteq> m_work_order (ms ! j)"
  shows "work_orders_unique d"
  unfolding work_orders_unique_def assms(1) using assms(2,3) by blast

lemma work_orders_unique_both:
  "work_orders_unique d \<Longrightarrow> m \<in> set (machines d) \<Longrightarrow> m_work_order m = m_erpnext_work_order_id m"
  unfolding work_orders_unique_def by blast

lemma work_orders_unique_distinct:
  "work_orders_unique d \<Longrightarrow> i < length (machines d) \<Longrightarrow> j < length (machines d) \<Longrightarrow> i \<noteq> j
     \<Longrightarrow> m_work_order (machines d ! i) = None
         \<or> m_work_order (machines d ! i) \<noteq> m_work_order (machines d ! j)"
  unfolding work_orders_unique_def by blast

lemma work_orders_unique_machines:
  assumes "machines d' = machines d" and "work_orders_unique d"
  shows "work_orders_unique d'"
proof (rule work_orders_uniqueI [OF assms(1)])
  fix m assume "m \<in> set (machines d)"
  with assms(2) show "m_work_order m = m_erpnext_work_order_id m"
    by (rule work_orders_unique_both)
next
  fix i j assume "i < length (machines d)" "j < length (machines d)" "i \<noteq> j"
  with assms(2) show "m_work_order (machines d ! i) = None
         \<or> m_work_order (machines d ! i) \<noteq> m_work_order (machines d ! j)"
    by (rule work_orders_unique_distinct)
qed

lemma work_orders_unique_rows:
  assumes "work_orders_unique d" and "length ms = length (machines d)"
    and "\<forall>i < length ms. m_work_order (ms ! i) = m_work_order (machines d ! i)
           \<and> m_erpnext_work_order_id (ms ! i) = m_erpnext_work_order_id (machines d ! i)"
  shows "work_orders_unique (d\<lparr>machines := ms\<rparr>)"
proof -
  have a: "m_work_order m = m_erpnext_work_order_id m" if "m \<in> set ms" for m
  proof -
    from that obtain i where i: "i < length ms" "ms ! i = m" by (auto simp: in_set_conv_nth)
    then have "machines d ! i \<in> set (machines d)" using assms(2) by simp
    with assms(1) have "m_work_order (machines d ! i) = m_erpnext_work_order_id (machines d ! i)"
      by (rule work_orders_unique_both)
    with assms(3) i show ?thesis by metis
  qed
  have b: "m_work_order (ms ! i) = None \<or> m_work_order (ms ! i) \<noteq> m_work_order (ms ! j)"
    if "i < length ms" "j < length ms" "i \<noteq> j" for i j
  proof -
    have "m_work_order (machines d ! i) = None
          \<or> m_work_order (machines d ! i) \<noteq> m_work_order (machines d ! j)"
      using assms(1) that assms(2) by (intro work_orders_unique_distinct) simp_all
    with assms(3) that show ?thesis by metis
  qed
  have "machines (d\<lparr>machines := ms\<rparr>) = ms" by simp
  then show ?thesis using a b by (rule work_orders_uniqueI)
qed

lemma work_orders_unique_update:
  assumes "work_orders_unique d" and "i < length (machines d)"
    and "m_work_order y = m_work_order (machines d ! i)"
    and "m_erpnext_work_order_id y = m_erpnext_work_order_id (machines d ! i)"
  shows "work_orders_unique (d\<lparr>machines := (machines d)[i := y]\<rparr>)"
  using assms(1)
proof (rule work_orders_unique_rows)
  show "length ((machines d)[i := y]) = length (machines d)" by simp
  show "\<forall>k < length ((machines d)[i := y]).
          m_work_order ((machines d)[i := y] ! k) = m_work_order (machines d ! k)
        \<and> m_erpnext_work_order_id ((machines d)[i := y] ! k)
            = m_erpnext_work_order_id (machines d ! k)"
    using assms(2,3,4) by (auto simp: nth_list_update)
qed

lemma work_orders_unique_assigned_db:
  assumes "work_orders_unique d" and "assignable wo (machines d) wname"
  shows "work_orders_unique (assigned_db now wo wname d)"
proof -
  let ?ms = "machines d"
  let ?i = "selected ?ms wo"
  let ?ms' = "?ms[?i := assign_fields (?ms ! ?i) wname wo]"
  have ne: "free_machines ?ms (wo_custom_location wo) \<noteq> []"
    using assms(2) by (simp add: assignable_def)
  have lt: "?i < length ?ms" using selected_eligible [OF ne] by simp
  have fresh: "\<forall>m \<in> set ?ms. m_erpnext_work_order_id m \<noteq> Some wname"
    using assms(2) by (simp add: assignable_def)
  have eq: "\<forall>m \<in> set ?ms. m_work_order m = m_erpnext_work_order_id m"
    using assms(1) work_orders_unique_both by blast
  have other: "m_work_order (?ms ! k) \<noteq> Some wname" if "k < length ?ms" for k
    using fresh eq that nth_mem by metis
  have new: "m_work_order (assign_fields m wname wo) = Some wname
             \<and> m_erpnext_work_order_id (assign_fields m wname wo) = Some wname" for m
    by (simp add: assign_fields_def)
  have a: "\<forall>m \<in> set ?ms'. m_work_order m = m_erpnext_work_order_id m"
    using eq new by (intro list_update_all) simp_all
  have b: "m_work_order (?ms' ! k) = None \<or> m_work_order (?ms' ! k) \<noteq> m_work_order (?ms' ! j)"
    if "k < length ?ms" "j < length ?ms" "k \<noteq> j" for k j
  proof -
    have old: "m_work_order (?ms ! k) = None \<or> m_work_order (?ms ! k) \<noteq> m_work_order (?ms ! j)"
      using assms(1) that by (rule work_orders_unique_distinct)
    show ?thesis
    proof (cases "k = ?i")
      case True
      then have "j \<noteq> ?i" using that(3) by simp
      then show ?thesis using True lt new other [OF that(2)] by (simp add: nth_list_update)
    next
      case False
      show ?thesis
      proof (cases "j = ?i")
        case True
        then show ?thesis using False lt new other [OF that(1)] by (simp add: nth_list_update)
      next
        case F: False
        then show ?thesis using False old by (simp add: nth_list_update)
      qed
    qed
  qed
  have "machines (assigned_db now wo wname d) = ?ms'" by (simp add: assigned_db_def)
  then show ?thesis
  proof (rule work_orders_uniqueI)
    fix m assume "m \<in> set ?ms'"
    with a show "m_work_order m = m_erpnext_work_order_id m" by blast
  next
    fix k j assume "k < length ?ms'" "j < length ?ms'" "k \<noteq> j"
    then show "m_work_order (?ms' ! k) = None \<or> m_work_order (?ms' ! k) \<noteq> m_work_order (?ms' ! j)"
      using b by simp
  qed
qed

lemma meter_row_work_order:
  "m_work_order (meter_row now m) = m_work_order m
   \<and> m_erpnext_work_order_id (meter_row now m) = m_erpnext_work_order_id m"
  by (simp add: meter_row_def meter_step_def update_machine_status_def Let_def
      split: option.splits)

text \<open>
  Every machine carries its work order under both names, and no two machines carry the
  same work order: the assignment pass, the meter counter and the pause request keep it.
  It implies what the theorem on completion asks of the other running rows.
\<close>

lemma work_orders_unique_preserved:
  assumes "work_orders_unique d"
  shows "work_orders_unique (fst (auto_assign_work_orders now faults wos d))"
    and "work_orders_unique (automatic_meter_counter now d)"
    and "work_orders_unique (fst (pause_machine location machine_id d))"
proof -
  show "work_orders_unique (fst (auto_assign_work_orders now faults wos d))"
  proof (rule auto_assign_work_orders_invariant [where Inv = work_orders_unique])
    show "work_orders_unique d" by (rule assms)
  next
    fix d' wo wname
    assume "work_orders_unique d'" "assignable wo (machines d') wname"
    then show "work_orders_unique (assigned_db now wo wname d')"
      by (rule work_orders_unique_assigned_db)
  qed
next
  have "work_orders_unique (d\<lparr>machines := map (meter_row now) (machines d)\<rparr>)"
    using assms by (rule work_orders_unique_rows) (simp_all add: meter_row_work_order)
  then have "machines (automatic_meter_counter now d) = map (meter_row now) (machines d)
             \<Longrightarrow> work_orders_unique (automatic_meter_counter now d)"
    by (rule work_orders_unique_machines [rotated]) simp
  then show "work_orders_unique (automatic_meter_counter now d)"
    using automatic_meter_counter_rows [of now d] assms by auto
next
  show "work_orders_unique (fst (pause_machine location machine_id d))"
  proof (cases "get_machine d location machine_id")
    case None
    then show ?thesis using assms by (simp add: pause_machine_def)
  next
    case (Some i)
    then have "i < length (machines d)"
      using first_index_Some unfolding get_machine_def by blast
    from work_orders_unique_update [OF assms this, of "(machines d ! i)\<lparr>m_status := ''paused''\<rparr>"]
    show ?thesis using Some by (simp add: pause_machine_def)
  qed
qed

lemma work_orders_unique_others:
  assumes "work_orders_unique d" and "i < length (machines d)"
    and "truthy_str (m_work_order (machines d ! i))"
  shows "\<forall>j < length (machines d). j \<noteq> i \<and> m_status (machines d ! j) = ''running''
           \<longrightarrow> m_work_order (machines d ! j) \<noteq> m_work_order (machines d ! i)"
proof (intro allI impI)
  fix j assume j: "j < length (machines d)" "j \<noteq> i \<and> m_status (machines d ! j) = ''running''"
  have "m_work_order (machines d ! i) \<noteq> None"
    using assms(3) by (auto simp: truthy_str_def split: option.splits)
  moreover have "m_work_order (machines d ! i) = None
      \<or> m_work_order (machines d ! i) \<noteq> m_work_order (machines d ! j)"
    using assms(1,2) j by (intro work_orders_unique_distinct) simp_all
  ultimately show "m_work_order (machines d ! j) \<noteq> m_work_order (machines d ! i)" by metis
qed

end
